theory Spec2Isabelle
  imports Main "HOL-Library.AList"
begin

section \<open>Python values used by enigma.py\<close>

text \<open>
  A Python \<open>str\<close> is a sequence of Unicode code points. A character is its code point
  (a natural number) and a string is the list of its characters, so that \<open>len\<close> counts
  what Python counts. \<open>str\<close> turns a literal into that representation.
\<close>

type_synonym pychar = nat
type_synonym pystr = "nat list"

definition str :: "string \<Rightarrow> pystr" where
  "str s = map of_char s"

text \<open>\<^verbatim>\<open>ALPHABET = string.ascii_uppercase\<close>\<close>

definition ALPHABET :: pystr where
  "ALPHABET = str ''ABCDEFGHIJKLMNOPQRSTUVWXYZ''"

text \<open>
  The exceptions the source can raise: a missing dictionary key, an index out of range,
  \<open>str.index\<close> on a substring that does not occur, and the \<open>ValueError\<close> that
  \<open>Reflector.__init__\<close> raises itself, whose message names the two symbols.
\<close>

datatype error =
    KeyError pychar
  | IndexError
  | ValueError_substring_not_found
  | ValueError_mapping_invalid pychar pychar

text \<open>
  \<open>xs[i]\<close>: the positions \<open>0 .. len-1\<close> are read directly, the positions
  \<open>-len .. -1\<close> from the end, and every other index raises \<open>IndexError\<close>.
\<close>

definition getitem :: "'a list \<Rightarrow> int \<Rightarrow> error + 'a" where
  "getitem xs i =
     (if 0 \<le> i \<and> i < int (length xs) then Inr (xs ! nat i)
      else if - int (length xs) \<le> i \<and> i < 0 then Inr (xs ! nat (int (length xs) + i))
      else Inl IndexError)"

text \<open>
  The bound of a slice \<open>xs[k:]\<close> or \<open>xs[:k]\<close>: a negative bound counts from the end,
  and a bound beyond either end is clipped to it. Slicing never raises.
\<close>

definition slice_bound :: "'a list \<Rightarrow> int \<Rightarrow> nat" where
  "slice_bound xs k =
     (let n = int (length xs)
      in if k < 0 then nat (max 0 (n + k)) else nat (min k n))"

definition slice_from :: "'a list \<Rightarrow> int \<Rightarrow> 'a list" where
  "slice_from xs k = drop (slice_bound xs k) xs"

definition slice_to :: "'a list \<Rightarrow> int \<Rightarrow> 'a list" where
  "slice_to xs k = take (slice_bound xs k) xs"

text \<open>
  \<open>s.find(sub)\<close>: the lowest position at which \<open>sub\<close> occurs in \<open>s\<close> as a
  substring. \<open>sub in s\<close> and \<open>s.index(sub)\<close> are defined by it; the empty string
  occurs at position 0 of every string.
\<close>

fun str_find :: "'a list \<Rightarrow> 'a list \<Rightarrow> nat option" where
  "str_find [] sub = (if sub = [] then Some 0 else None)"
| "str_find (c # s) sub =
     (if take (length sub) (c # s) = sub then Some 0
      else map_option Suc (str_find s sub))"

definition str_contains :: "'a list \<Rightarrow> 'a list \<Rightarrow> bool" where
  "str_contains s sub = (str_find s sub \<noteq> None)"

definition str_index :: "'a list \<Rightarrow> 'a list \<Rightarrow> error + int" where
  "str_index s sub =
     (case str_find s sub of
        None \<Rightarrow> Inl ValueError_substring_not_found
      | Some i \<Rightarrow> Inr (int i))"

text \<open>
  \<open>dict(pairs)\<close>: an association list with each key once, in the order of first
  insertion; a later pair with a key already present replaces its value.
  \<open>d[k]\<close> raises \<open>KeyError\<close> on a missing key.
\<close>

definition dict :: "('k \<times> 'v) list \<Rightarrow> ('k \<times> 'v) list" where
  "dict ps = foldl (\<lambda>d (k, v). AList.update k v d) [] ps"

definition dict_getitem :: "(pychar \<times> 'v) list \<Rightarrow> pychar \<Rightarrow> error + 'v" where
  "dict_getitem d k = (case map_of d k of None \<Rightarrow> Inl (KeyError k) | Some v \<Rightarrow> Inr v)"

text \<open>
  \<open>str.upper\<close> is a builtin driven by the Unicode tables; the machine takes it as a
  parameter \<open>up\<close>, from a character to the string it upper-cases to. \<open>upper\<close> is that
  function on the code points below 256 (ASCII and Latin-1), where it is: the small
  letters go to their capitals, the micro sign to Greek capital mu, sharp s to
  \<open>SS\<close>, y with diaeresis to its capital at 376. It serves for concrete inputs; the
  code points from 256 on are outside this table and are left as they are.
\<close>

type_synonym upper_fn = "pychar \<Rightarrow> pystr"

definition upper :: upper_fn where
  "upper c =
     (if 97 \<le> c \<and> c \<le> 122 then [c - 32]
      else if c = 181 then [924]
      else if c = 223 then [83, 83]
      else if 224 \<le> c \<and> c \<le> 254 \<and> c \<noteq> 247 then [c - 32]
      else if c = 255 then [376]
      else [c])"

text \<open>
  \<open>str.upper\<close> as above and at the two ligatures U+FB05 and U+FB06 (code points 64261
  and 64262), whose upper-case form is the two characters \<open>ST\<close>.
\<close>

definition upper_with_ligatures :: upper_fn where
  "upper_with_ligatures c = (if c = 64261 \<or> c = 64262 then str ''ST'' else upper c)"

section \<open>Rotor\<close>

record rotor =
  initial_offset :: int
  alphabet :: pystr
  rotations :: int
  forward_mappings :: "(pychar \<times> pychar) list"
  reverse_mappings :: "(pychar \<times> pychar) list"

text \<open>
  \<^verbatim>\<open>self.alphabet = self.alphabet[offset:] + self.alphabet[:offset]
  self.rotations = offset\<close>
\<close>

definition Rotor_rotate :: "rotor \<Rightarrow> int \<Rightarrow> rotor" where
  "Rotor_rotate self offset =
     self\<lparr>alphabet := slice_from (alphabet self) offset @ slice_to (alphabet self) offset,
          rotations := offset\<rparr>"

text \<open>
  \<^verbatim>\<open>self.alphabet = ALPHABET
  self.rotate(self.initial_offset)
  self.rotations = 1\<close>
\<close>

definition Rotor_reset :: "rotor \<Rightarrow> rotor" where
  "Rotor_reset self =
     (let self1 = self\<lparr>alphabet := ALPHABET\<rparr>;
          self2 = Rotor_rotate self1 (initial_offset self1)
      in self2\<lparr>rotations := 1\<rparr>)"

text \<open>
  \<open>Rotor.__init__\<close>. \<open>reset\<close> assigns \<open>alphabet\<close> and \<open>rotations\<close> before
  anything reads them, so the values they have in the record handed to it do not
  matter. The two dictionaries are built against \<open>self.alphabet\<close> as \<open>reset\<close> left it,
  that is, against the alphabet already rotated by the offset. No statement of the
  constructor raises: the result is always \<open>Inr\<close>.
\<close>

definition Rotor_init :: "pystr \<Rightarrow> int \<Rightarrow> error + rotor" where
  "Rotor_init mappings offset =
     (let self = Rotor_reset \<lparr>initial_offset = offset, alphabet = [], rotations = 0,
                              forward_mappings = [], reverse_mappings = []\<rparr>;
          self = self\<lparr>forward_mappings := dict (zip (alphabet self) mappings)\<rparr>;
          self = self\<lparr>reverse_mappings := dict (zip mappings (alphabet self))\<rparr>
      in Inr self)"

definition Rotor_encipher :: "rotor \<Rightarrow> pychar \<Rightarrow> error + pychar" where
  "Rotor_encipher self character = dict_getitem (forward_mappings self) character"

definition Rotor_decipher :: "rotor \<Rightarrow> pychar \<Rightarrow> error + pychar" where
  "Rotor_decipher self character = dict_getitem (reverse_mappings self) character"

text \<open>
  \<^verbatim>\<open>x = self.alphabet[contact_index]
  x = self.encipher(x) if right else self.decipher(x)
  return self.alphabet.index(x)\<close>
  The method assigns no attribute: it is a function of the rotor and the index, and the
  rotor after the call is the rotor before it.
\<close>

definition Rotor_translate :: "rotor \<Rightarrow> int \<Rightarrow> bool \<Rightarrow> error + int" where
  "Rotor_translate self contact_index right =
     (case getitem (alphabet self) contact_index of
        Inl e \<Rightarrow> Inl e
      | Inr x \<Rightarrow>
          (case (if right then Rotor_encipher self x else Rotor_decipher self x) of
             Inl e \<Rightarrow> Inl e
           | Inr x' \<Rightarrow> str_index (alphabet self) [x']))"

section \<open>Reflector\<close>

record reflector =
  mappings :: "(pychar \<times> pychar) list"

text \<open>
  The validation loop of \<open>Reflector.__init__\<close> over the keys, in dictionary order:
  \<^verbatim>\<open>y = self.mappings[x]
  if x != self.mappings[y]: raise ValueError(...)\<close>
\<close>

fun Reflector_check :: "(pychar \<times> pychar) list \<Rightarrow> pychar list \<Rightarrow> error + unit" where
  "Reflector_check d [] = Inr ()"
| "Reflector_check d (x # xs) =
     (case dict_getitem d x of
        Inl e \<Rightarrow> Inl e
      | Inr y \<Rightarrow>
          (case dict_getitem d y of
             Inl e \<Rightarrow> Inl e
           | Inr z \<Rightarrow>
               if x \<noteq> z then Inl (ValueError_mapping_invalid x y)
               else Reflector_check d xs))"

definition Reflector_init :: "pystr \<Rightarrow> error + reflector" where
  "Reflector_init ms =
     (let d = dict (zip ALPHABET ms)
      in case Reflector_check d (map fst d) of
           Inl e \<Rightarrow> Inl e
         | Inr _ \<Rightarrow> Inr \<lparr>mappings = d\<rparr>)"

definition Reflector_getitem :: "reflector \<Rightarrow> pychar \<Rightarrow> error + pychar" where
  "Reflector_getitem self character = dict_getitem (mappings self) character"

section \<open>Machine\<close>

text \<open>
  The machine holds its rotors in a list and mutates them in place. The rotors of one
  machine are taken to be distinct objects, as the data model has it (each rotor is
  owned by one machine, in one place of its sequence), so the list of rotor values is
  the state.
\<close>

record machine =
  rotors :: "rotor list"
  reflector :: reflector

definition Machine_init :: "rotor list \<Rightarrow> reflector \<Rightarrow> machine" where
  "Machine_init rs rf = \<lparr>rotors = rs, reflector = rf\<rparr>"

definition Machine_reset :: "machine \<Rightarrow> machine" where
  "Machine_reset self = self\<lparr>rotors := map Rotor_reset (rotors self)\<rparr>"

text \<open>
  \<^verbatim>\<open>for rotor in rotors: contact_index = rotor.translate(contact_index, right)\<close>
  over the rotors in the order given (the source runs it on \<open>self.rotors\<close> with
  \<open>right = True\<close> and on \<open>reversed(self.rotors)\<close> with \<open>right = False\<close>).
\<close>

fun translate_through :: "rotor list \<Rightarrow> bool \<Rightarrow> int \<Rightarrow> error + int" where
  "translate_through [] right contact_index = Inr contact_index"
| "translate_through (r # rs) right contact_index =
     (case Rotor_translate r contact_index right of
        Inl e \<Rightarrow> Inl e
      | Inr c \<Rightarrow> translate_through rs right c)"

text \<open>
  One pass of the turnover loop, for one \<open>index\<close>:
  \<^verbatim>\<open>rotor = self.rotors[index]
  turn_frequency = len(ALPHABET)*index
  if self.rotors[index-1].rotations % turn_frequency == 0:
      rotor.rotate()\<close>
  Python's \<open>%\<close> with a positive right operand is \<open>mod\<close> on \<open>int\<close>.
\<close>

definition turnover :: "nat \<Rightarrow> rotor list \<Rightarrow> rotor list" where
  "turnover index rs =
     (let turn_frequency = int (length ALPHABET) * int index
      in if rotations (rs ! (index - 1)) mod turn_frequency = 0
         then rs[index := Rotor_rotate (rs ! index) 1]
         else rs)"

text \<open>
  The stepping of \<open>encipher_character\<close>:
  \<^verbatim>\<open>self.rotors[0].rotate()
  for index in range(1, len(self.rotors)): ...\<close>
  \<open>self.rotors[0]\<close> raises \<open>IndexError\<close> on a machine without rotors.
\<close>

definition stepping :: "rotor list \<Rightarrow> error + rotor list" where
  "stepping rs =
     (if rs = [] then Inl IndexError
      else Inr (fold turnover [1..<length rs] (rs[0 := Rotor_rotate (rs ! 0) 1])))"

text \<open>
  \<open>Machine.encipher_character\<close>. The result is the machine after the call and the
  string returned; \<open>Inl\<close> is an exception leaving the method.
\<close>

definition Machine_encipher_character ::
  "upper_fn \<Rightarrow> machine \<Rightarrow> pychar \<Rightarrow> error + (machine \<times> pystr)" where
  "Machine_encipher_character up self x0 =
     (let x = up x0 in
      if \<not> str_contains ALPHABET x then Inr (self, x)
      else
        case str_index ALPHABET x of Inl e \<Rightarrow> Inl e | Inr c1 \<Rightarrow>
        case translate_through (rotors self) True c1 of Inl e \<Rightarrow> Inl e | Inr c2 \<Rightarrow>
        case getitem ALPHABET c2 of Inl e \<Rightarrow> Inl e | Inr a \<Rightarrow>
        case Reflector_getitem (reflector self) a of Inl e \<Rightarrow> Inl e | Inr y \<Rightarrow>
        case str_index ALPHABET [y] of Inl e \<Rightarrow> Inl e | Inr c3 \<Rightarrow>
        case translate_through (rev (rotors self)) False c3 of Inl e \<Rightarrow> Inl e | Inr c4 \<Rightarrow>
        case stepping (rotors self) of Inl e \<Rightarrow> Inl e | Inr rs \<Rightarrow>
        case getitem ALPHABET c4 of Inl e \<Rightarrow> Inl e | Inr z \<Rightarrow>
          Inr (self\<lparr>rotors := rs\<rparr>, [z]))"

text \<open>
  \<^verbatim>\<open>''.join(self.encipher_character(x) for x in text)\<close>: the characters are
  processed from left to right, each on the machine the one before left behind.
\<close>

fun Machine_encipher :: "upper_fn \<Rightarrow> machine \<Rightarrow> pystr \<Rightarrow> error + (machine \<times> pystr)" where
  "Machine_encipher up self [] = Inr (self, [])"
| "Machine_encipher up self (x # text) =
     (case Machine_encipher_character up self x of
        Inl e \<Rightarrow> Inl e
      | Inr (self1, y) \<Rightarrow>
          (case Machine_encipher up self1 text of
             Inl e \<Rightarrow> Inl e
           | Inr (self2, ys) \<Rightarrow> Inr (self2, y @ ys)))"

definition Machine_decipher :: "upper_fn \<Rightarrow> machine \<Rightarrow> pystr \<Rightarrow> error + (machine \<times> pystr)" where
  "Machine_decipher up self text = Machine_encipher up (Machine_reset self) text"

section \<open>The reflector's contract in the words of the specification\<close>

text \<open>
  The mapping string pairs the alphabet symbol at position \<open>i\<close> with its own character
  at position \<open>i\<close>; the position of an alphabet symbol is its code point less that of
  \<open>A\<close>. The string is an involution when mapping twice returns every symbol.
\<close>

definition mapping_at :: "pystr \<Rightarrow> pychar \<Rightarrow> pychar" where
  "mapping_at ms x = ms ! (x - 65)"

definition is_involution :: "pystr \<Rightarrow> bool" where
  "is_involution ms \<longleftrightarrow> (\<forall>x\<in>set ALPHABET. mapping_at ms (mapping_at ms x) = x)"

section \<open>Example configurations\<close>

text \<open>A rotor left in an arbitrary state, with initial offset 3.\<close>

definition used_rotor :: rotor where
  "used_rotor =
     \<lparr>initial_offset = 3, alphabet = str ''QRSTUVWXYZABCDEFGHIJKLMNOP'', rotations = 7,
      forward_mappings = [], reverse_mappings = []\<rparr>"

text \<open>
  Three permutation wirings and an involution, a mapping string that is not an
  involution (\<open>A\<close> goes to \<open>B\<close> and \<open>B\<close> to \<open>C\<close>), a wiring that is not a
  permutation (\<open>A\<close> twice, no \<open>B\<close>), and the machine of the three rotors at offset 0.
\<close>

definition wiring_I :: pystr where "wiring_I = str ''EKMFLGDQVZNTOWYHXUSPAIBRCJ''"
definition wiring_II :: pystr where "wiring_II = str ''AJDKSIRUXBLHWTMCQGZNPYFVOE''"
definition wiring_III :: pystr where "wiring_III = str ''BDFHJLCPRTXVZNYEIWGAKMUSQO''"
definition wiring_B :: pystr where "wiring_B = str ''YRUHQSLDPXNGOKMIEBFZCWVJAT''"
definition wiring_not_involution :: pystr where
  "wiring_not_involution = str ''BCAHQSLDPXNGOKMIEBFZCWVJAT''"
definition wiring_not_permutation :: pystr where
  "wiring_not_permutation = str ''AACDEFGHIJKLMNOPQRSTUVWXYZ''"

definition example_rotors :: "rotor list" where
  "example_rotors = map (\<lambda>w. projr (Rotor_init w 0)) [wiring_I, wiring_II, wiring_III]"

definition example_machine :: machine where
  "example_machine = Machine_init example_rotors (projr (Reflector_init wiring_B))"

text \<open>
  The machine of the example after a caller has turned its second rotor by
  \<open>rotate(0)\<close>: the rotor stands where it stood and its counter holds 0.
\<close>

definition zero_counter_machine :: machine where
  "zero_counter_machine =
     example_machine\<lparr>rotors :=
       (rotors example_machine)[1 := Rotor_rotate (rotors example_machine ! 1) 0]\<rparr>"

section \<open>The stepping in the words of the specification\<close>

text \<open>
  \<open>stepping_rule rs rs'\<close>: \<open>rs'\<close> is what the stepping makes of the rotors \<open>rs\<close>.
  Rotor 0 is rotated by one position. Going up from index 1, rotor \<open>i\<close> is rotated by
  one position exactly when the rotation value stored in rotor \<open>i - 1\<close>, as the
  stepping has left that rotor, is a multiple of \<open>26 * i\<close>, and is otherwise the rotor
  it was. Every rotor of \<open>rs'\<close> is fixed by this, so nothing else moves.
\<close>

definition stepping_rule :: "rotor list \<Rightarrow> rotor list \<Rightarrow> bool" where
  "stepping_rule rs rs' \<longleftrightarrow>
     length rs' = length rs \<and> rs \<noteq> [] \<and>
     rs' ! 0 = Rotor_rotate (rs ! 0) 1 \<and>
     (\<forall>i\<in>{1..<length rs}.
        rs' ! i = (if rotations (rs' ! (i - 1)) mod (26 * int i) = 0
                   then Rotor_rotate (rs ! i) 1 else rs ! i))"

section \<open>Well-formed configurations and the signal path\<close>

text \<open>
  Notions for the proofs. A contact position is in range when it is one of \<open>0..25\<close>.
  A rotor is well formed when its alphabet view is a permutation of the alphabet and
  its two dictionaries are inverse bijections of the alphabet; a reflector when its
  dictionary is an involution of the alphabet. \<open>route\<close> is the signal path of
  \<open>encipher_character\<close> from the first contact position to the last: forward through
  the rotors, the reflector, back through the rotors.
\<close>

definition in_range :: "int \<Rightarrow> bool" where
  "in_range i \<longleftrightarrow> 0 \<le> i \<and> i < 26"

definition rotor_ok :: "rotor \<Rightarrow> bool" where
  "rotor_ok r \<longleftrightarrow>
     distinct (alphabet r) \<and> set (alphabet r) = set ALPHABET \<and>
     (\<forall>a\<in>set ALPHABET. \<exists>b\<in>set ALPHABET.
        map_of (forward_mappings r) a = Some b \<and> map_of (reverse_mappings r) b = Some a) \<and>
     (\<forall>b\<in>set ALPHABET. \<exists>a\<in>set ALPHABET.
        map_of (reverse_mappings r) b = Some a \<and> map_of (forward_mappings r) a = Some b)"

definition reflector_ok :: "reflector \<Rightarrow> bool" where
  "reflector_ok rf \<longleftrightarrow>
     (\<forall>a\<in>set ALPHABET. \<exists>b\<in>set ALPHABET.
        map_of (mappings rf) a = Some b \<and> map_of (mappings rf) b = Some a)"

definition route :: "machine \<Rightarrow> int \<Rightarrow> error + int" where
  "route self c1 =
     (case translate_through (rotors self) True c1 of Inl e \<Rightarrow> Inl e | Inr c2 \<Rightarrow>
      case getitem ALPHABET c2 of Inl e \<Rightarrow> Inl e | Inr a \<Rightarrow>
      case Reflector_getitem (reflector self) a of Inl e \<Rightarrow> Inl e | Inr y \<Rightarrow>
      case str_index ALPHABET [y] of Inl e \<Rightarrow> Inl e | Inr c3 \<Rightarrow>
        translate_through (rev (rotors self)) False c3)"

definition machine_ok :: "machine \<Rightarrow> bool" where
  "machine_ok m \<longleftrightarrow> (\<forall>r\<in>set (rotors m). rotor_ok r) \<and> reflector_ok (reflector m)"

section \<open>Facts about the alphabet and about slices\<close>

lemma ALPHABET_upt: "ALPHABET = [65..<91]"
  by (simp add: ALPHABET_def str_def upt_rec)

lemma length_ALPHABET: "length ALPHABET = 26"
  by (simp add: ALPHABET_upt)

lemma distinct_ALPHABET: "distinct ALPHABET"
  by (simp add: ALPHABET_upt)

lemma set_ALPHABET: "set ALPHABET = {65..<91}"
  unfolding ALPHABET_upt by (rule set_upt)

lemma slice_bound_le: "slice_bound xs k \<le> length xs"
  by (auto simp: slice_bound_def Let_def)

text \<open>\<open>xs[k:] + xs[:k]\<close> is a rotation of \<open>xs\<close>, whatever the integer \<open>k\<close>.\<close>

lemma slice_rotate: "slice_from xs k @ slice_to xs k = rotate (slice_bound xs k) xs"
proof (cases "slice_bound xs k = length xs")
  case True
  then show ?thesis by (simp add: slice_from_def slice_to_def)
next
  case False
  with slice_bound_le [of xs k] have "slice_bound xs k < length xs" by simp
  then show ?thesis by (simp add: slice_from_def slice_to_def rotate_drop_take)
qed

lemma rotate1_slice: "rotate (slice_bound xs 1) xs = rotate 1 xs"
  by (cases xs) (simp_all add: slice_bound_def)

lemma Rotor_rotate_eq:
  "Rotor_rotate r k =
     r\<lparr>alphabet := rotate (slice_bound (alphabet r) k) (alphabet r), rotations := k\<rparr>"
  by (simp add: Rotor_rotate_def slice_rotate)

lemma Rotor_reset_eq:
  "Rotor_reset r =
     r\<lparr>alphabet := rotate (slice_bound ALPHABET (initial_offset r)) ALPHABET,
       rotations := 1\<rparr>"
  by (simp add: Rotor_reset_def Rotor_rotate_eq Let_def)

lemma Rotor_reset_idem: "Rotor_reset (Rotor_reset r) = Rotor_reset r"
  by (simp add: Rotor_reset_eq)

lemma slice_bound_mod:
  assumes "- 26 \<le> k" "k \<le> 26"
  shows "slice_bound ALPHABET k mod 26 = nat (k mod 26)"
proof (cases "k < 0")
  case True
  have "(26 + k) mod 26 = 26 + k"
    using True assms by (intro mod_pos_pos_trivial) auto
  then have a: "k mod 26 = 26 + k" by simp
  have b: "slice_bound ALPHABET k = nat (26 + k)"
    using True assms by (simp add: slice_bound_def length_ALPHABET Let_def)
  have "nat (26 + k) < 26" using True by arith
  then show ?thesis by (simp add: a b)
next
  case False
  then have "slice_bound ALPHABET k = nat k"
    using assms by (simp add: slice_bound_def length_ALPHABET Let_def)
  then show ?thesis using False by (simp add: nat_mod_distrib)
qed

lemma ALPHABET_nth: "i < 26 \<Longrightarrow> ALPHABET ! i = 65 + i"
  unfolding ALPHABET_upt by (rule nth_upt) simp

lemma length_alphabet_reset: "length (alphabet (Rotor_reset r)) = 26"
  by (simp add: Rotor_reset_eq length_ALPHABET)

section \<open>Facts about dictionaries and \<open>str.find\<close>\<close>

lemma foldl_update_keys:
  "fst ` set (foldl (\<lambda>d (k, v). AList.update k v d) acc ps) = fst ` set acc \<union> fst ` set ps"
  by (induction ps arbitrary: acc) (simp_all add: dom_update split_beta)

lemma dict_keys: "fst ` set (dict ps) = fst ` set ps"
  by (simp add: dict_def foldl_update_keys)

lemma update_fresh: "k \<notin> fst ` set al \<Longrightarrow> AList.update k v al = al @ [(k, v)]"
  by (induction al) auto

lemma foldl_update_distinct:
  "distinct (map fst (acc @ ps)) \<Longrightarrow>
   foldl (\<lambda>d (k, v). AList.update k v d) acc ps = acc @ ps"
proof (induction ps arbitrary: acc)
  case Nil
  then show ?case by simp
next
  case (Cons p ps)
  obtain k v where p: "p = (k, v)" by (cases p)
  from Cons.prems have "k \<notin> fst ` set acc" by (auto simp: p)
  then have "AList.update k v acc = acc @ [(k, v)]" by (rule update_fresh)
  moreover have "distinct (map fst ((acc @ [(k, v)]) @ ps))" using Cons.prems by (simp add: p)
  ultimately show ?case using Cons.IH [of "acc @ [(k, v)]"] by (simp add: p)
qed

lemma dict_distinct: "distinct (map fst ps) \<Longrightarrow> dict ps = ps"
  using foldl_update_distinct [of "[]" ps] by (simp add: dict_def)

lemma dict_getitem_None: "k \<notin> fst ` set d \<Longrightarrow> dict_getitem d k = Inl (KeyError k)"
  using map_of_eq_None_iff [of d k] by (simp add: dict_getitem_def)

lemma str_find_single_None: "a \<notin> set s \<Longrightarrow> str_find s [a] = None"
  by (induction s) auto

lemma str_find_single_Some:
  "a \<in> set s \<Longrightarrow> \<exists>i. str_find s [a] = Some i \<and> i < length s \<and> s ! i = a"
  by (induction s) auto

lemma str_find_single_nth:
  "distinct s \<Longrightarrow> i < length s \<Longrightarrow> str_find s [s ! i] = Some i"
proof (induction s arbitrary: i)
  case Nil
  then show ?case by simp
next
  case (Cons c s)
  show ?case
  proof (cases i)
    case 0
    then show ?thesis by simp
  next
    case (Suc j)
    with Cons.prems have "s ! j \<noteq> c" by auto
    with Cons Suc show ?thesis by auto
  qed
qed

lemma str_contains_single: "str_contains s [a] \<longleftrightarrow> a \<in> set s"
  by (cases "a \<in> set s")
     (auto simp: str_contains_def dest: str_find_single_None str_find_single_Some)

lemma getitem_nth: "0 \<le> i \<Longrightarrow> i < int (length xs) \<Longrightarrow> getitem xs i = Inr (xs ! nat i)"
  by (simp add: getitem_def)

lemma str_index_nth:
  "distinct s \<Longrightarrow> i < length s \<Longrightarrow> str_index s [s ! i] = Inr (int i)"
  by (simp add: str_index_def str_find_single_nth)

lemma str_index_ALPHABET:
  "a \<in> set ALPHABET \<Longrightarrow> str_index ALPHABET [a] = Inr (int (a - 65)) \<and> in_range (int (a - 65))
      \<and> ALPHABET ! (a - 65) = a"
proof -
  assume "a \<in> set ALPHABET"
  then have b: "65 \<le> a" "a < 91" by (auto simp: set_ALPHABET)
  then have i: "a - 65 < 26" by simp
  then have n: "ALPHABET ! (a - 65) = a" using b by (simp add: ALPHABET_nth)
  have "str_index ALPHABET [ALPHABET ! (a - 65)] = Inr (int (a - 65))"
    using i by (intro str_index_nth distinct_ALPHABET) (simp add: length_ALPHABET)
  with n i show ?thesis by (simp add: in_range_def)
qed

lemma getitem_ALPHABET:
  "in_range c \<Longrightarrow> getitem ALPHABET c = Inr (ALPHABET ! nat c) \<and> ALPHABET ! nat c \<in> set ALPHABET
     \<and> int (ALPHABET ! nat c - 65) = c"
proof -
  assume "in_range c"
  then have c: "0 \<le> c" "c < 26" "nat c < 26" by (auto simp: in_range_def)
  then have "ALPHABET ! nat c = 65 + nat c" by (simp add: ALPHABET_nth)
  moreover have "ALPHABET ! nat c \<in> set ALPHABET"
    using c(3) by (intro nth_mem) (simp add: length_ALPHABET)
  ultimately show ?thesis
    using c by (simp add: getitem_nth length_ALPHABET)
qed

lemma dict_getitem_Inr: "dict_getitem d k = Inr v \<longleftrightarrow> map_of d k = Some v"
  by (simp add: dict_getitem_def split: option.splits)

lemma map_of_zip_bij:
  assumes "length xs = length ys" and "distinct xs" and "distinct ys" and "a \<in> set xs"
  shows "\<exists>b\<in>set ys. map_of (zip xs ys) a = Some b \<and> map_of (zip ys xs) b = Some a"
proof -
  from assms(4) obtain i where i: "i < length xs" "xs ! i = a"
    by (auto simp: in_set_conv_nth)
  have "map_of (zip xs ys) (xs ! i) = Some (ys ! i)"
    using assms i by (intro map_of_zip_nth) simp_all
  moreover have "map_of (zip ys xs) (ys ! i) = Some (xs ! i)"
    using assms i by (intro map_of_zip_nth) simp_all
  moreover have "ys ! i \<in> set ys" using assms(1) i(1) by simp
  ultimately show ?thesis using i(2) by auto
qed

lemma str_find_bound:
  "str_find s sub = Some i \<Longrightarrow> i + length sub \<le> length s \<and> (sub = [] \<longrightarrow> i = 0)"
proof (induction s arbitrary: i)
  case Nil
  then show ?case by (simp split: if_splits)
next
  case (Cons c s)
  show ?case
  proof (cases "take (length sub) (c # s) = sub")
    case True
    then have "length (take (length sub) (c # s)) = length sub" by simp
    then have "length sub \<le> length (c # s)" by (simp del: take_Suc_Cons)
    with True Cons.prems show ?thesis by simp
  next
    case False
    then have ne: "sub \<noteq> []" by auto
    from False Cons.prems obtain j where j: "str_find s sub = Some j" "i = Suc j" by auto
    from Cons.IH [OF j(1)] j(2) ne show ?thesis by simp
  qed
qed

lemma str_index_in_range:
  assumes "str_contains ALPHABET x"
  shows "\<exists>i. str_index ALPHABET x = Inr i \<and> in_range i"
proof -
  from assms obtain n where n: "str_find ALPHABET x = Some n"
    by (auto simp: str_contains_def)
  from str_find_bound [OF n] have "n < 26"
    by (cases x) (simp_all add: length_ALPHABET)
  then show ?thesis using n by (simp add: str_index_def in_range_def)
qed

section \<open>Reset\<close>

text \<open>
  Claim C9. \<open>Rotor.reset()\<close>, whatever the alphabet view and the rotation counter of
  the rotor were, sets the view to the canonical alphabet shifted cyclically by
  \<open>initial_offset\<close> and the counter to 1 (not 0), and touches nothing else.
  \<open>rotate n\<close> is the cyclic left shift of a list by \<open>n\<close> places. The offset ranges
  over \<open>-26..26\<close>, which holds the offsets \<open>0..25\<close> of the data model; a negative offset
  shifts to the right, as \<open>rotate\<close> by the offset modulo 26 does.
\<close>

theorem Rotor_reset_spec:
  assumes "- 26 \<le> initial_offset r" and "initial_offset r \<le> 26"
  shows "Rotor_reset r =
           r\<lparr>alphabet := rotate (nat (initial_offset r mod 26)) ALPHABET, rotations := 1\<rparr>"
proof -
  have "rotate (slice_bound ALPHABET (initial_offset r)) ALPHABET
      = rotate (slice_bound ALPHABET (initial_offset r) mod 26) ALPHABET"
    using rotate_conv_mod [of "slice_bound ALPHABET (initial_offset r)" ALPHABET]
    by (simp add: length_ALPHABET)
  then show ?thesis
    using slice_bound_mod [OF assms] by (simp add: Rotor_reset_eq)
qed

theorem Rotor_reset_spec_witness:
  "- 26 \<le> initial_offset used_rotor \<and> initial_offset used_rotor \<le> 26 \<and>
   alphabet (Rotor_reset used_rotor) = str ''DEFGHIJKLMNOPQRSTUVWXYZABC'' \<and>
   rotations (Rotor_reset used_rotor) = 1"
proof -
  have h1: "- 26 \<le> initial_offset used_rotor" by (simp add: used_rotor_def)
  have h2: "initial_offset used_rotor \<le> 26" by (simp add: used_rotor_def)
  have "rotate (nat (initial_offset used_rotor mod 26)) ALPHABET
          = str ''DEFGHIJKLMNOPQRSTUVWXYZABC''"
    by (simp add: used_rotor_def ALPHABET_def str_def eval_nat_numeral)
  then show ?thesis
    using h1 h2 Rotor_reset_spec [OF h1 h2] by simp
qed

text \<open>
  Beyond that range the slices are clipped and the view is the canonical alphabet,
  unshifted.
\<close>

lemma Rotor_reset_clipped:
  assumes "initial_offset r < - 26 \<or> 26 < initial_offset r"
  shows "alphabet (Rotor_reset r) = ALPHABET"
proof -
  have "slice_bound ALPHABET (initial_offset r) = 0 \<or>
        slice_bound ALPHABET (initial_offset r) = 26"
    using assms by (auto simp: slice_bound_def length_ALPHABET Let_def)
  then show ?thesis
    using rotate_conv_mod [of 26 ALPHABET] by (auto simp: Rotor_reset_eq length_ALPHABET)
qed

text \<open>
  Claim C10. \<open>Machine.reset()\<close> is idempotent: on any machine state, resetting twice
  gives the same machine, every rotor with the same alphabet view and rotation
  counter, as resetting once.
\<close>

theorem Machine_reset_idempotent: "Machine_reset (Machine_reset m) = Machine_reset m"
  by (simp add: Machine_reset_def Rotor_reset_idem)

section \<open>Characters outside the alphabet\<close>

lemma passthrough_char:
  "\<not> str_contains ALPHABET (up c) \<Longrightarrow> Machine_encipher_character up m c = Inr (m, up c)"
  by (simp add: Machine_encipher_character_def Let_def)

lemma upper_ascii:
  assumes "c < 128" and "\<not> str_contains ALPHABET (upper c)"
  shows "upper c = [c]"
proof (cases "97 \<le> c \<and> c \<le> 122")
  case True
  then have "c - 32 \<in> set ALPHABET" by (auto simp: set_ALPHABET)
  then have "str_contains ALPHABET (upper c)"
    using True by (simp add: upper_def str_contains_single)
  with assms show ?thesis by simp
next
  case False
  with assms(1) show ?thesis by (auto simp: upper_def)
qed

text \<open>
  Claim C6, as stated: a character whose upper-case form is not in the alphabet is
  emitted unchanged. It fails at the small letter e with acute accent (code point 233):
  \<open>encipher_character\<close> returns \<open>x.upper()\<close>, here the capital at 201, not the
  character it was given. The rotors are left as they were.
\<close>

theorem nonalphabetic_unchanged_counterexample:
  "\<not> str_contains ALPHABET (upper 233) \<and>
   Machine_encipher upper example_machine [233] = Inr (example_machine, [201]) \<and>
   [201] \<noteq> [233 :: pychar]"
  by (simp add: Machine_encipher_character_def upper_def str_contains_def ALPHABET_def
                str_def)

text \<open>
  Claim C6, amended. The test of the code is \<open>x.upper() not in ALPHABET\<close>, and \<open>in\<close>
  on strings is a substring test: it holds when the upper-case form \<open>up c\<close> of the
  character does not occur in the alphabet string as a substring. For a character whose
  upper-case form is one character \<open>a\<close> that is to say that \<open>a\<close> is not one of the 26
  letters. For every character on which the test holds, \<open>encipher_character\<close> returns
  the upper-case form and the machine it was given, every rotor with the alphabet view
  and the rotation counter it had; in \<open>encipher\<close> the character contributes \<open>up c\<close>
  to the output and the rest of the text is enciphered on the unchanged machine. For an
  ASCII character (code point below 128: the digits, the punctuation, the whitespace)
  the upper-case form is the character itself, so that it is emitted unchanged.
  The test fails, and nothing is said here, for a character whose upper-case form is
  several characters that occur together in the alphabet string: the ligatures U+FB05
  and U+FB06 upper-case to \<open>ST\<close>, and are enciphered as the letter \<open>S\<close> is, stepping
  the rotors (lemma \<open>ligature_is_enciphered\<close>).
\<close>

theorem nonalphabetic_passthrough:
  "(\<not> str_contains ALPHABET (up c) \<longrightarrow>
      Machine_encipher_character up m c = Inr (m, up c) \<and>
      Machine_encipher up m (c # text) =
        (case Machine_encipher up m text of
           Inl e \<Rightarrow> Inl e
         | Inr (m', ys) \<Rightarrow> Inr (m', up c @ ys))) \<and>
   (\<forall>a. up c = [a] \<and> a \<notin> set ALPHABET \<longrightarrow>
      \<not> str_contains ALPHABET (up c) \<and>
      Machine_encipher_character up m c = Inr (m, [a])) \<and>
   (c < 128 \<and> \<not> str_contains ALPHABET (upper c) \<longrightarrow>
      Machine_encipher_character upper m c = Inr (m, [c]))"
  using upper_ascii [of c]
  by (auto simp: passthrough_char str_contains_single split: sum.splits)

theorem nonalphabetic_passthrough_witness:
  "(33 :: pychar) < 128 \<and> \<not> str_contains ALPHABET (upper 33) \<and>
   Machine_encipher_character upper example_machine 33 = Inr (example_machine, [33]) \<and>
   Machine_encipher upper example_machine [33, 32] = Inr (example_machine, [33, 32]) \<and>
   upper 233 = [201] \<and> (201 :: pychar) \<notin> set ALPHABET \<and>
   Machine_encipher_character upper example_machine 233 = Inr (example_machine, [201])"
proof -
  have h: "\<not> str_contains ALPHABET (upper 33)" "\<not> str_contains ALPHABET (upper 32)"
    by (simp_all add: upper_def str_contains_def ALPHABET_def str_def)
  have e: "upper 233 = [201]" "(201 :: pychar) \<notin> set ALPHABET"
    by (simp_all add: upper_def set_ALPHABET)
  show ?thesis
    using h e nonalphabetic_passthrough [of upper 33 example_machine "[32]"]
      nonalphabetic_passthrough [of upper 32 example_machine "[]"]
      nonalphabetic_passthrough [of upper 233 example_machine "[]"]
    by (simp add: upper_def)
qed

section \<open>Rotor construction\<close>

lemma missing_symbol:
  assumes "length w = 26" and "\<not> (distinct w \<and> set w = set ALPHABET)"
  shows "\<exists>a\<in>set ALPHABET. a \<notin> set w"
proof (rule ccontr)
  assume "\<not> (\<exists>a\<in>set ALPHABET. a \<notin> set w)"
  then have sub: "set ALPHABET \<subseteq> set w" by auto
  have cA: "card (set ALPHABET) = 26"
    using distinct_card [OF distinct_ALPHABET] by (simp add: length_ALPHABET)
  have "card (set ALPHABET) \<le> card (set w)" using sub by (intro card_mono) auto
  moreover have "card (set w) \<le> length w" by (rule card_length)
  ultimately have cw: "card (set w) = 26" using assms(1) cA by simp
  then have "distinct w" using assms(1) by (simp add: card_distinct)
  moreover have "set ALPHABET = set w"
    using sub cA cw by (intro card_subset_eq) auto
  ultimately show False using assms(2) by simp
qed

text \<open>
  Claim C7, as stated: constructing a rotor from a 26-character wiring that is not a
  permutation of the alphabet fails. It does not: \<open>Rotor.__init__\<close> checks nothing,
  and the wiring with \<open>A\<close> twice and no \<open>B\<close> yields a rotor.
\<close>

theorem Rotor_init_rejects_counterexample:
  "length wiring_not_permutation = 26 \<and> \<not> distinct wiring_not_permutation \<and>
   \<not> isl (Rotor_init wiring_not_permutation 0)"
  by (simp add: wiring_not_permutation_def str_def Rotor_init_def Let_def)

text \<open>
  Claim C7, amended. Constructing a rotor from a 26-character wiring that is not a
  permutation of the alphabet succeeds, at any offset; the rotor it yields has no
  reverse mapping for at least one symbol of the alphabet, and \<open>decipher\<close> of that
  symbol raises \<open>KeyError\<close>: the fault shows at use, not at construction.
\<close>

theorem Rotor_init_unvalidated:
  assumes "length w = 26" and "\<not> (distinct w \<and> set w = set ALPHABET)"
  shows "\<exists>r. Rotor_init w off = Inr r \<and>
             (\<exists>a\<in>set ALPHABET. Rotor_decipher r a = Inl (KeyError a))"
proof -
  from missing_symbol [OF assms] obtain a where a: "a \<in> set ALPHABET" "a \<notin> set w" by auto
  define r0 where "r0 = Rotor_reset \<lparr>initial_offset = off, alphabet = [], rotations = 0,
                              forward_mappings = [], reverse_mappings = []\<rparr>"
  define r where "r = r0\<lparr>forward_mappings := dict (zip (alphabet r0) w),
                          reverse_mappings := dict (zip w (alphabet r0))\<rparr>"
  have init: "Rotor_init w off = Inr r"
    by (simp add: Rotor_init_def r_def r0_def Let_def)
  have "length (alphabet r0) = 26" unfolding r0_def by (rule length_alphabet_reset)
  then have "map fst (zip w (alphabet r0)) = w"
    using assms(1) by simp
  then have "fst ` set (zip w (alphabet r0)) = set w"
    using set_map [of fst "zip w (alphabet r0)"] by simp
  then have "fst ` set (reverse_mappings r) = set w"
    by (simp add: r_def dict_keys)
  then have "Rotor_decipher r a = Inl (KeyError a)"
    using a(2) by (simp add: Rotor_decipher_def dict_getitem_None)
  with init a(1) show ?thesis by blast
qed

theorem Rotor_init_unvalidated_witness:
  "length wiring_not_permutation = 26 \<and>
   \<not> (distinct wiring_not_permutation \<and> set wiring_not_permutation = set ALPHABET) \<and>
   (\<exists>r. Rotor_init wiring_not_permutation 0 = Inr r \<and>
        (\<exists>a\<in>set ALPHABET. Rotor_decipher r a = Inl (KeyError a)))"
proof -
  have h1: "length wiring_not_permutation = 26"
    by (simp add: wiring_not_permutation_def str_def)
  have h2: "\<not> (distinct wiring_not_permutation \<and> set wiring_not_permutation = set ALPHABET)"
    by (simp add: wiring_not_permutation_def str_def)
  show ?thesis
    using h1 h2 Rotor_init_unvalidated [OF h1 h2, of 0] by simp
qed

section \<open>Reflector construction\<close>

lemma Reflector_check_find:
  assumes "\<And>x. x \<in> A \<Longrightarrow> dict_getitem d x = Inr (f x) \<and> f x \<in> A"
      and "set xs \<subseteq> A"
  shows "Reflector_check d xs =
           (case List.find (\<lambda>x. f (f x) \<noteq> x) xs of
              None \<Rightarrow> Inr ()
            | Some x \<Rightarrow> Inl (ValueError_mapping_invalid x (f x)))"
  using assms(2)
proof (induction xs)
  case Nil
  then show ?case by simp
next
  case (Cons x xs)
  then have x: "x \<in> A" by simp
  then have 1: "dict_getitem d x = Inr (f x)" and fx: "f x \<in> A" using assms(1) by auto
  from fx have 2: "dict_getitem d (f x) = Inr (f (f x))" using assms(1) by auto
  from Cons show ?case by (auto simp: 1 2)
qed

lemma reflector_dict:
  assumes "length ms = 26"
  shows "dict (zip ALPHABET ms) = zip ALPHABET ms"
    and "map fst (zip ALPHABET ms) = ALPHABET"
    and "x \<in> set ALPHABET \<Longrightarrow> dict_getitem (zip ALPHABET ms) x = Inr (mapping_at ms x)"
    and "x \<in> set ALPHABET \<Longrightarrow> mapping_at ms x \<in> set ms"
proof -
  show k: "map fst (zip ALPHABET ms) = ALPHABET"
    using assms by (simp add: length_ALPHABET)
  then show "dict (zip ALPHABET ms) = zip ALPHABET ms"
    using distinct_ALPHABET by (intro dict_distinct) simp
  assume "x \<in> set ALPHABET"
  then have b: "65 \<le> x" "x < 91" by (auto simp: set_ALPHABET)
  then have i: "x - 65 < 26" by simp
  then have "ALPHABET ! (x - 65) = x" using b by (simp add: ALPHABET_nth)
  moreover have "map_of (zip ALPHABET ms) (ALPHABET ! (x - 65)) = Some (ms ! (x - 65))"
    using assms i distinct_ALPHABET by (intro map_of_zip_nth) (simp_all add: length_ALPHABET)
  ultimately show "dict_getitem (zip ALPHABET ms) x = Inr (mapping_at ms x)"
    by (simp add: dict_getitem_def mapping_at_def)
  show "mapping_at ms x \<in> set ms" using i assms by (simp add: mapping_at_def)
qed

lemma Reflector_init_find:
  assumes "length ms = 26" and "set ms \<subseteq> set ALPHABET"
  shows "Reflector_init ms =
           (case List.find (\<lambda>x. mapping_at ms (mapping_at ms x) \<noteq> x) ALPHABET of
              None \<Rightarrow> Inr \<lparr>mappings = zip ALPHABET ms\<rparr>
            | Some x \<Rightarrow> Inl (ValueError_mapping_invalid x (mapping_at ms x)))"
proof -
  have "Reflector_check (zip ALPHABET ms) ALPHABET =
           (case List.find (\<lambda>x. mapping_at ms (mapping_at ms x) \<noteq> x) ALPHABET of
              None \<Rightarrow> Inr ()
            | Some x \<Rightarrow> Inl (ValueError_mapping_invalid x (mapping_at ms x)))"
    using reflector_dict(3,4) [OF assms(1)] assms(2)
    by (intro Reflector_check_find [where A = "set ALPHABET"]) auto
  then show ?thesis
    by (simp add: Reflector_init_def reflector_dict(1,2) [OF assms(1)] Let_def
             split: option.splits)
qed

text \<open>
  Claim C5. For a mapping string of 26 characters drawn from the alphabet,
  \<open>Reflector.__init__\<close> raises if and only if the mapping is not an involution; what it
  raises is the \<open>ValueError\<close> naming a symbol \<open>x\<close> and its image, a pair with
  \<open>mapping(mapping(x)) \<noteq> x\<close>; the error is the result of the construction itself;
  and on every reflector that is constructed, reflecting twice returns each of the 26
  symbols.
\<close>

theorem Reflector_init_involution:
  assumes "length ms = 26" and "set ms \<subseteq> set ALPHABET"
  shows "(isl (Reflector_init ms) \<longleftrightarrow> \<not> is_involution ms) \<and>
         (\<forall>e. Reflector_init ms = Inl e \<longrightarrow>
            (\<exists>x\<in>set ALPHABET. e = ValueError_mapping_invalid x (mapping_at ms x) \<and>
                               mapping_at ms (mapping_at ms x) \<noteq> x)) \<and>
         (\<forall>rf. Reflector_init ms = Inr rf \<longrightarrow>
            (\<forall>x\<in>set ALPHABET. \<exists>y. Reflector_getitem rf x = Inr y \<and>
                                     Reflector_getitem rf y = Inr x))"
proof (cases "List.find (\<lambda>x. mapping_at ms (mapping_at ms x) \<noteq> x) ALPHABET")
  case None
  then have inv: "is_involution ms"
    by (auto simp: find_None_iff is_involution_def)
  have init: "Reflector_init ms = Inr \<lparr>mappings = zip ALPHABET ms\<rparr>"
    using None by (simp add: Reflector_init_find [OF assms])
  have "\<exists>y. Reflector_getitem \<lparr>mappings = zip ALPHABET ms\<rparr> x = Inr y \<and>
            Reflector_getitem \<lparr>mappings = zip ALPHABET ms\<rparr> y = Inr x"
    if x: "x \<in> set ALPHABET" for x
  proof -
    have y: "mapping_at ms x \<in> set ALPHABET"
      using reflector_dict(4) [OF assms(1) x] assms(2) by auto
    have "mapping_at ms (mapping_at ms x) = x" using inv x by (simp add: is_involution_def)
    then show ?thesis
      using reflector_dict(3) [OF assms(1) x] reflector_dict(3) [OF assms(1) y]
      by (simp add: Reflector_getitem_def)
  qed
  with init inv show ?thesis by simp
next
  case (Some x)
  then have x: "x \<in> set ALPHABET" "mapping_at ms (mapping_at ms x) \<noteq> x"
    by (auto simp: find_Some_iff)
  then have "\<not> is_involution ms" by (auto simp: is_involution_def)
  moreover have "Reflector_init ms = Inl (ValueError_mapping_invalid x (mapping_at ms x))"
    using Some by (simp add: Reflector_init_find [OF assms])
  ultimately show ?thesis using x by auto
qed

theorem Reflector_init_involution_witness:
  "(length wiring_B = 26 \<and> set wiring_B \<subseteq> set ALPHABET \<and> is_involution wiring_B \<and>
    (\<exists>rf. Reflector_init wiring_B = Inr rf \<and>
       (\<exists>y. Reflector_getitem rf 65 = Inr y \<and> Reflector_getitem rf y = Inr 65))) \<and>
   (length wiring_not_involution = 26 \<and> set wiring_not_involution \<subseteq> set ALPHABET \<and>
    \<not> is_involution wiring_not_involution \<and>
    Reflector_init wiring_not_involution = Inl (ValueError_mapping_invalid 65 66) \<and>
    mapping_at wiring_not_involution 65 = 66 \<and> mapping_at wiring_not_involution 66 \<noteq> 65)"
proof -
  have g1: "length wiring_B = 26" and g2: "set wiring_B \<subseteq> set ALPHABET"
    by (simp_all add: wiring_B_def str_def ALPHABET_def)
  have g3: "is_involution wiring_B"
    by (simp add: wiring_B_def str_def is_involution_def mapping_at_def ALPHABET_def)
  have b1: "length wiring_not_involution = 26"
    and b2: "set wiring_not_involution \<subseteq> set ALPHABET"
    by (simp_all add: wiring_not_involution_def str_def ALPHABET_def)
  have b3: "\<not> is_involution wiring_not_involution"
    by (simp add: wiring_not_involution_def str_def is_involution_def mapping_at_def
                  ALPHABET_def)
  have b4: "Reflector_init wiring_not_involution = Inl (ValueError_mapping_invalid 65 66)"
    by (simp add: Reflector_init_def wiring_not_involution_def str_def ALPHABET_def
                  dict_def dict_getitem_def)
  have b5: "mapping_at wiring_not_involution 65 = 66 \<and> mapping_at wiring_not_involution 66 \<noteq> 65"
    by (simp add: wiring_not_involution_def str_def mapping_at_def)
  have A: "(65 :: pychar) \<in> set ALPHABET" by (simp add: set_ALPHABET)
  from Reflector_init_involution [OF g1 g2] g3
  have "\<not> isl (Reflector_init wiring_B)"
    and all: "\<forall>rf. Reflector_init wiring_B = Inr rf \<longrightarrow>
           (\<forall>x\<in>set ALPHABET. \<exists>y. Reflector_getitem rf x = Inr y \<and>
                                    Reflector_getitem rf y = Inr x)"
    by simp_all
  then obtain rf where rf: "Reflector_init wiring_B = Inr rf"
    by (cases "Reflector_init wiring_B") auto
  with all A have "\<exists>y. Reflector_getitem rf 65 = Inr y \<and> Reflector_getitem rf y = Inr 65"
    by blast
  with rf g1 g2 g3 b1 b2 b3 b4 b5 show ?thesis by blast
qed

section \<open>The signal path through the rotors\<close>

lemma rotor_ok_length: "rotor_ok r \<Longrightarrow> length (alphabet r) = 26"
proof -
  assume "rotor_ok r"
  then have "distinct (alphabet r)" "set (alphabet r) = set ALPHABET"
    by (simp_all add: rotor_ok_def)
  then have "length (alphabet r) = card (set ALPHABET)"
    using distinct_card [of "alphabet r"] by simp
  then show ?thesis using distinct_card [OF distinct_ALPHABET] by (simp add: length_ALPHABET)
qed

text \<open>One rotor: the signal goes through, and goes back the other way.\<close>

lemma translate_there_and_back:
  assumes ok: "rotor_ok r" and i: "in_range i"
  shows "\<exists>j. Rotor_translate r i d = Inr j \<and> in_range j \<and> Rotor_translate r j (\<not> d) = Inr i"
proof -
  have len: "length (alphabet r) = 26" using ok by (rule rotor_ok_length)
  have dist: "distinct (alphabet r)" and st: "set (alphabet r) = set ALPHABET"
    using ok by (simp_all add: rotor_ok_def)
  define x where "x = alphabet r ! nat i"
  have ni: "nat i < length (alphabet r)" using i len by (auto simp: in_range_def)
  have gx: "getitem (alphabet r) i = Inr x"
    using i len by (simp add: getitem_nth in_range_def x_def)
  have xA: "x \<in> set ALPHABET" using ni st nth_mem [OF ni] by (simp add: x_def)
  define look where "look = (\<lambda>b. if b then forward_mappings r else reverse_mappings r)"
  have "\<exists>y\<in>set ALPHABET. map_of (look d) x = Some y \<and> map_of (look (\<not> d)) y = Some x"
    using ok xA by (cases d) (auto simp: rotor_ok_def look_def)
  then obtain y where yA: "y \<in> set ALPHABET" and xy: "map_of (look d) x = Some y"
    and yx: "map_of (look (\<not> d)) y = Some x" by auto
  from yA st have "y \<in> set (alphabet r)" by simp
  then obtain j where j: "j < length (alphabet r)" "alphabet r ! j = y"
    by (auto simp: in_set_conv_nth)
  have ey: "(if d then Rotor_encipher r x else Rotor_decipher r x) = Inr y"
    using xy by (cases d) (simp_all add: Rotor_encipher_def Rotor_decipher_def
        dict_getitem_def look_def)
  have ex: "(if \<not> d then Rotor_encipher r y else Rotor_decipher r y) = Inr x"
    using yx by (cases d) (simp_all add: Rotor_encipher_def Rotor_decipher_def
        dict_getitem_def look_def)
  have iy: "str_index (alphabet r) [y] = Inr (int j)"
    using str_index_nth [OF dist j(1)] j(2) by simp
  have ix: "str_index (alphabet r) [x] = Inr i"
    using str_index_nth [OF dist ni] i by (simp add: x_def in_range_def)
  have go: "Rotor_translate r i d = Inr (int j)"
    using gx ey iy by (simp add: Rotor_translate_def)
  have gj: "getitem (alphabet r) (int j) = Inr y"
    using j by (simp add: getitem_nth)
  have bk: "Rotor_translate r (int j) (\<not> d) = Inr i"
    unfolding Rotor_translate_def using gj ex ix by simp
  have "in_range (int j)" using j(1) len by (simp add: in_range_def)
  with go bk show ?thesis by blast
qed

lemma translate_through_append:
  "translate_through (xs @ ys) d i =
     (case translate_through xs d i of Inl e \<Rightarrow> Inl e | Inr c \<Rightarrow> translate_through ys d c)"
  by (induction xs arbitrary: i) (auto split: sum.splits)

lemma through_there_and_back:
  assumes "\<forall>r\<in>set rs. rotor_ok r" and "in_range i"
  shows "\<exists>j. translate_through rs d i = Inr j \<and> in_range j \<and>
             translate_through (rev rs) (\<not> d) j = Inr i"
  using assms
proof (induction rs arbitrary: i)
  case Nil
  then show ?case by simp
next
  case (Cons r rs)
  from Cons.prems obtain c where c: "Rotor_translate r i d = Inr c" "in_range c"
      "Rotor_translate r c (\<not> d) = Inr i"
    using translate_there_and_back [of r i d] by auto
  from Cons.IH [of c] Cons.prems c(2) obtain j where
    j: "translate_through rs d c = Inr j" "in_range j"
       "translate_through (rev rs) (\<not> d) j = Inr c" by auto
  have "translate_through (r # rs) d i = Inr j" using c(1) j(1) by simp
  moreover have "translate_through (rev (r # rs)) (\<not> d) j = Inr i"
    using j(3) c(3) by (simp add: translate_through_append)
  ultimately show ?case using j(2) by blast
qed

text \<open>The whole signal path is an involution of the contact positions.\<close>

lemma route_involution:
  assumes ok: "machine_ok m" and i: "in_range i"
  shows "\<exists>j. route m i = Inr j \<and> in_range j \<and> route m j = Inr i"
proof -
  have rs: "\<forall>r\<in>set (rotors m). rotor_ok r" and rv: "\<forall>r\<in>set (rev (rotors m)). rotor_ok r"
    using ok by (simp_all add: machine_ok_def)
  from through_there_and_back [OF rs i, of True] obtain c2 where
    c2: "translate_through (rotors m) True i = Inr c2" "in_range c2"
        "translate_through (rev (rotors m)) False c2 = Inr i" by auto
  define a where "a = ALPHABET ! nat c2"
  have a: "getitem ALPHABET c2 = Inr a" "a \<in> set ALPHABET" "int (a - 65) = c2"
    using getitem_ALPHABET [OF c2(2)] by (simp_all add: a_def)
  from ok a(2) obtain y where y: "y \<in> set ALPHABET"
      "Reflector_getitem (reflector m) a = Inr y" "Reflector_getitem (reflector m) y = Inr a"
    by (auto simp: machine_ok_def reflector_ok_def Reflector_getitem_def dict_getitem_def)
  define c3 where "c3 = int (y - 65)"
  have c3: "str_index ALPHABET [y] = Inr c3" "in_range c3" "ALPHABET ! nat c3 = y"
    using str_index_ALPHABET [OF y(1)] by (simp_all add: c3_def)
  from through_there_and_back [OF rv c3(2), of False] obtain c4 where
    c4: "translate_through (rev (rotors m)) False c3 = Inr c4" "in_range c4"
        "translate_through (rotors m) True c4 = Inr c3" by auto
  have fwd: "route m i = Inr c4"
    using c2(1) a(1) y(2) c3(1) c4(1) by (simp add: route_def)
  have gy: "getitem ALPHABET c3 = Inr y"
    using getitem_ALPHABET [OF c3(2)] c3(3) by simp
  have ia: "str_index ALPHABET [a] = Inr c2"
    using str_index_ALPHABET [OF a(2)] a(3) by simp
  have "route m c4 = Inr i"
    using c4(3) gy y(3) ia c2(3) by (simp add: route_def)
  with fwd c4(2) show ?thesis by blast
qed


text \<open>A rotor built from a permutation wiring, and every rotation state of it.\<close>

lemma Rotor_init_ok:
  assumes "distinct w" and "set w = set ALPHABET" and "Rotor_init w off = Inr r0"
  shows "rotor_ok (r0\<lparr>alphabet := rotate n ALPHABET, rotations := k\<rparr>)"
proof -
  define al where "al = rotate (slice_bound ALPHABET off) ALPHABET"
  have r0: "r0 = \<lparr>initial_offset = off, alphabet = al, rotations = 1,
                  forward_mappings = dict (zip al w), reverse_mappings = dict (zip w al)\<rparr>"
    using assms(3) by (auto simp: Rotor_init_def Rotor_reset_eq Let_def al_def)
  have dal: "distinct al" and sal: "set al = set ALPHABET" and lal: "length al = 26"
    by (simp_all add: al_def distinct_ALPHABET length_ALPHABET)
  have "length w = card (set ALPHABET)" using assms(1,2) distinct_card [of w] by simp
  then have lw: "length w = 26"
    using distinct_card [OF distinct_ALPHABET] by (simp add: length_ALPHABET)
  have f: "dict (zip al w) = zip al w" using dal lal lw by (intro dict_distinct) simp
  have b: "dict (zip w al) = zip w al" using assms(1) lal lw by (intro dict_distinct) simp
  have 1: "\<exists>b\<in>set ALPHABET. map_of (zip al w) a = Some b \<and> map_of (zip w al) b = Some a"
    if "a \<in> set ALPHABET" for a
    using map_of_zip_bij [of al w a] that dal assms(1,2) sal lal lw by simp
  have 2: "\<exists>a\<in>set ALPHABET. map_of (zip w al) b = Some a \<and> map_of (zip al w) a = Some b"
    if "b \<in> set ALPHABET" for b
    using map_of_zip_bij [of w al b] that dal assms(1,2) sal lal lw by simp
  define r where "r = r0\<lparr>alphabet := rotate n ALPHABET, rotations := k\<rparr>"
  have fr: "forward_mappings r = zip al w" and br: "reverse_mappings r = zip w al"
    and ar: "alphabet r = rotate n ALPHABET"
    by (simp_all add: r_def r0 f b)
  have "distinct (alphabet r)" "set (alphabet r) = set ALPHABET"
    by (simp_all add: ar distinct_ALPHABET)
  then have "rotor_ok r"
    unfolding rotor_ok_def fr br using 1 2 by blast
  then show ?thesis by (simp add: r_def)
qed

lemma Rotor_init_eq:
  "Rotor_init w off = Inr r0 \<longleftrightarrow>
     r0 = \<lparr>initial_offset = off, alphabet = rotate (slice_bound ALPHABET off) ALPHABET,
           rotations = 1,
           forward_mappings = dict (zip (rotate (slice_bound ALPHABET off) ALPHABET) w),
           reverse_mappings = dict (zip w (rotate (slice_bound ALPHABET off) ALPHABET))\<rparr>"
  by (auto simp: Rotor_init_def Rotor_reset_eq Let_def)

lemma Rotor_init_fresh:
  assumes "Rotor_init w off = Inr r0"
  shows "r0\<lparr>alphabet := rotate (slice_bound ALPHABET off) ALPHABET, rotations := 1\<rparr> = r0"
    and "Rotor_reset r0 = r0" and "rotations r0 = 1" and "initial_offset r0 = off"
  using assms unfolding Rotor_init_eq by (simp_all add: Rotor_reset_eq)

lemma Rotor_init_ok0:
  assumes "distinct w" and "set w = set ALPHABET" and "Rotor_init w off = Inr r0"
  shows "rotor_ok r0"
  using Rotor_init_ok [OF assms, where n = "slice_bound ALPHABET off" and k = 1]
    Rotor_init_fresh(1) [OF assms(3)]
  by simp

lemma rotor_ok_rotate: "rotor_ok r \<Longrightarrow> rotor_ok (Rotor_rotate r k)"
  by (simp add: rotor_ok_def Rotor_rotate_eq)

lemma Rotor_reset_rotate: "Rotor_reset (Rotor_rotate r k) = Rotor_reset r"
  by (simp add: Rotor_reset_eq Rotor_rotate_eq)

text \<open>
  Claim C8. For every rotor built from a wiring that is a permutation of the alphabet,
  in every rotation state (the rotor as constructed, with any rotation of the alphabet
  as its view and any value in its counter) and for every contact index \<open>i\<close> in
  \<open>0..25\<close>: \<open>translate\<close> forward and then in reverse returns \<open>i\<close>, and so does
  \<open>translate\<close> in reverse and then forward; both calls return, neither raises.
  \<open>translate\<close> assigns no attribute of the rotor, which is how it is embedded: a
  function of the rotor that returns the index only, the rotor being the same before
  and after.
\<close>

theorem translate_reversible:
  assumes "distinct w" and "set w = set ALPHABET" and "Rotor_init w off = Inr r0"
    and "r = r0\<lparr>alphabet := rotate n ALPHABET, rotations := k\<rparr>"
    and "0 \<le> i" and "i < 26"
  shows "(\<exists>j. Rotor_translate r i True = Inr j \<and> Rotor_translate r j False = Inr i) \<and>
         (\<exists>j. Rotor_translate r i False = Inr j \<and> Rotor_translate r j True = Inr i)"
proof -
  have ok: "rotor_ok r" unfolding assms(4) using assms(1-3) by (rule Rotor_init_ok)
  have i: "in_range i" using assms(5,6) by (simp add: in_range_def)
  show ?thesis
    using translate_there_and_back [OF ok i, of True] translate_there_and_back [OF ok i, of False]
    by auto
qed


theorem translate_reversible_witness:
  "distinct wiring_I \<and> set wiring_I = set ALPHABET \<and> (0::int) \<le> 3 \<and> (3::int) < 26 \<and>
   (\<exists>j. Rotor_translate
           ((projr (Rotor_init wiring_I 2))\<lparr>alphabet := rotate 5 ALPHABET, rotations := 7\<rparr>)
           3 True = Inr j \<and>
        Rotor_translate
           ((projr (Rotor_init wiring_I 2))\<lparr>alphabet := rotate 5 ALPHABET, rotations := 7\<rparr>)
           j False = Inr 3)"
proof -
  have h: "distinct wiring_I" "set wiring_I = set ALPHABET"
    by (auto simp: wiring_I_def str_def ALPHABET_def)
  have i: "Rotor_init wiring_I 2 = Inr (projr (Rotor_init wiring_I 2))"
    by (simp add: Rotor_init_def Let_def)
  have b: "(0::int) \<le> 3" "(3::int) < 26" by simp_all
  from translate_reversible [OF h i refl b, where n = 5 and k = 7] h show ?thesis by simp
qed

section \<open>Stepping\<close>

lemma length_turnover: "length (turnover i rs) = length rs"
  by (simp add: turnover_def Let_def)

lemma length_fold_turnover: "length (fold turnover is rs) = length rs"
  by (induction "is" arbitrary: rs) (simp_all add: length_turnover)

lemma stepping_Inr:
  "rs \<noteq> [] \<Longrightarrow> stepping rs = Inr (fold turnover [1..<length rs] (rs[0 := Rotor_rotate (rs ! 0) 1]))"
  by (simp add: stepping_def)

lemma stepping_length: "stepping rs = Inr rs' \<Longrightarrow> length rs' = length rs \<and> rs \<noteq> []"
  by (auto simp: stepping_def length_fold_turnover split: if_splits)

text \<open>The stepping keeps every rotor well formed.\<close>

lemma update_ok:
  assumes "\<forall>r\<in>set rs. rotor_ok r" and "rotor_ok x"
  shows "\<forall>r\<in>set (rs[i := x]). rotor_ok r"
  using assms set_update_subset_insert [of rs i x] by blast

lemma turnover_cases:
  "turnover i rs = rs \<or> turnover i rs = rs[i := Rotor_rotate (rs ! i) 1]"
  by (simp add: turnover_def Let_def)

lemma turnover_ok:
  assumes "\<forall>r\<in>set rs. rotor_ok r"
  shows "\<forall>r\<in>set (turnover i rs). rotor_ok r"
proof (cases "i < length rs")
  case True
  then have "rotor_ok (Rotor_rotate (rs ! i) 1)" using assms by (simp add: rotor_ok_rotate)
  with assms have "\<forall>r\<in>set (rs[i := Rotor_rotate (rs ! i) 1]). rotor_ok r"
    by (rule update_ok)
  then show ?thesis using assms turnover_cases [of i rs] by metis
next
  case False
  then have "rs[i := Rotor_rotate (rs ! i) 1] = rs" by (simp add: list_update_beyond)
  then show ?thesis using assms turnover_cases [of i rs] by metis
qed

lemma fold_turnover_ok:
  "\<forall>r\<in>set rs. rotor_ok r \<Longrightarrow> \<forall>r\<in>set (fold turnover is rs). rotor_ok r"
proof (induction "is" arbitrary: rs)
  case Nil
  then show ?case by simp
next
  case (Cons i "is")
  from Cons.prems have "\<forall>r\<in>set (turnover i rs). rotor_ok r" by (rule turnover_ok)
  then have "\<forall>r\<in>set (fold turnover is (turnover i rs)). rotor_ok r" by (rule Cons.IH)
  then show ?case by simp
qed

lemma stepping_ok:
  assumes "\<forall>r\<in>set rs. rotor_ok r" and "stepping rs = Inr rs'"
  shows "\<forall>r\<in>set rs'. rotor_ok r"
proof -
  from assms(2) have ne: "rs \<noteq> []" by (auto simp: stepping_def split: if_splits)
  then have "rotor_ok (Rotor_rotate (rs ! 0) 1)" using assms(1) by (simp add: rotor_ok_rotate)
  with assms(1) have "\<forall>r\<in>set (rs[0 := Rotor_rotate (rs ! 0) 1]). rotor_ok r"
    by (rule update_ok)
  then have "\<forall>r\<in>set (fold turnover [1..<length rs] (rs[0 := Rotor_rotate (rs ! 0) 1])).
               rotor_ok r"
    by (rule fold_turnover_ok)
  then show ?thesis using assms(2) ne by (simp add: stepping_def)
qed

lemma map_reset_update:
  "map Rotor_reset (rs[i := Rotor_rotate (rs ! i) k]) = map Rotor_reset rs"
  by (cases "i < length rs")
     (simp_all add: map_update Rotor_reset_rotate list_update_same_conv list_update_beyond)

lemma map_reset_turnover: "map Rotor_reset (turnover i rs) = map Rotor_reset rs"
  by (simp add: turnover_def Let_def map_reset_update)

lemma map_reset_fold: "map Rotor_reset (fold turnover is rs) = map Rotor_reset rs"
  by (induction "is" arbitrary: rs) (simp_all add: map_reset_turnover)

lemma stepping_reset: "stepping rs = Inr rs' \<Longrightarrow> map Rotor_reset rs' = map Rotor_reset rs"
  by (auto simp: stepping_def map_reset_fold map_reset_update split: if_splits)


section \<open>One character\<close>

lemma encipher_character_route:
  "Machine_encipher_character up m x =
     (if \<not> str_contains ALPHABET (up x) then Inr (m, up x)
      else
        case str_index ALPHABET (up x) of Inl e \<Rightarrow> Inl e | Inr c1 \<Rightarrow>
        case route m c1 of Inl e \<Rightarrow> Inl e | Inr c4 \<Rightarrow>
        case stepping (rotors m) of Inl e \<Rightarrow> Inl e | Inr rs \<Rightarrow>
        case getitem ALPHABET c4 of Inl e \<Rightarrow> Inl e | Inr z \<Rightarrow>
          Inr (m\<lparr>rotors := rs\<rparr>, [z]))"
  by (simp add: Machine_encipher_character_def route_def Let_def split: sum.splits)

text \<open>What a call that returns has done to the machine.\<close>

lemma encipher_character_Inr:
  assumes "Machine_encipher_character up m x = Inr (m', out)"
  shows "if str_contains ALPHABET (up x)
         then \<exists>rs. stepping (rotors m) = Inr rs \<and> m' = m\<lparr>rotors := rs\<rparr>
         else m' = m \<and> out = up x"
  using assms unfolding encipher_character_route
  by (auto split: if_splits sum.splits)

text \<open>
  On a well-formed machine a letter is enciphered to a letter, the same stepping is made
  whatever the letter, and on the same machine the cipher letter is enciphered back.
\<close>

lemma encipher_character_pair:
  assumes ok: "machine_ok m" and ne: "rotors m \<noteq> []" and a: "a \<in> set ALPHABET"
  shows "\<exists>b\<in>set ALPHABET. \<exists>rs.
           stepping (rotors m) = Inr rs \<and>
           (\<forall>x. up x = [a] \<longrightarrow> Machine_encipher_character up m x = Inr (m\<lparr>rotors := rs\<rparr>, [b])) \<and>
           (\<forall>y. up y = [b] \<longrightarrow> Machine_encipher_character up m y = Inr (m\<lparr>rotors := rs\<rparr>, [a]))"
proof -
  define i where "i = int (a - 65)"
  have ia: "str_index ALPHABET [a] = Inr i" "in_range i" "ALPHABET ! nat i = a"
    using str_index_ALPHABET [OF a] by (simp_all add: i_def)
  from route_involution [OF ok ia(2)] obtain j where
    j: "route m i = Inr j" "in_range j" "route m j = Inr i" by auto
  define b where "b = ALPHABET ! nat j"
  have gb: "getitem ALPHABET j = Inr b" "b \<in> set ALPHABET" "int (b - 65) = j"
    using getitem_ALPHABET [OF j(2)] by (simp_all add: b_def)
  have ib: "str_index ALPHABET [b] = Inr j"
    using str_index_ALPHABET [OF gb(2)] gb(3) by simp
  have ga: "getitem ALPHABET i = Inr a"
    using getitem_ALPHABET [OF ia(2)] ia(3) by simp
  obtain rs where rs: "stepping (rotors m) = Inr rs" using ne by (simp add: stepping_def)
  have ca: "str_contains ALPHABET [a]" and cb: "str_contains ALPHABET [b]"
    using a gb(2) by (simp_all add: str_contains_single)
  have 1: "Machine_encipher_character up m x = Inr (m\<lparr>rotors := rs\<rparr>, [b])" if "up x = [a]" for x
    unfolding encipher_character_route using that ca ia(1) j(1) rs gb(1) by simp
  have 2: "Machine_encipher_character up m y = Inr (m\<lparr>rotors := rs\<rparr>, [a])" if "up y = [b]" for y
    unfolding encipher_character_route using that cb ib j(3) rs ga by simp
  from 1 2 rs gb(2) show ?thesis by blast
qed

section \<open>A text\<close>

lemma machine_ok_step:
  assumes "machine_ok m" and "stepping (rotors m) = Inr rs"
  shows "machine_ok (m\<lparr>rotors := rs\<rparr>)" and "rs \<noteq> []"
    and "map Rotor_reset rs = map Rotor_reset (rotors m)"
proof -
  show "machine_ok (m\<lparr>rotors := rs\<rparr>)"
    using assms stepping_ok [of "rotors m" rs] by (simp add: machine_ok_def)
  show "rs \<noteq> []" using stepping_length [OF assms(2)] by auto
  show "map Rotor_reset rs = map Rotor_reset (rotors m)" using assms(2) by (rule stepping_reset)
qed

lemma encipher_there_and_back:
  assumes "machine_ok m" and "rotors m \<noteq> []"
    and "\<forall>c\<in>set T. \<exists>a\<in>set ALPHABET. up c = [a]"
    and up: "\<forall>a\<in>set ALPHABET. up a = [a]"
  shows "\<exists>m' C. Machine_encipher up m T = Inr (m', C) \<and>
                Machine_encipher up m C = Inr (m', concat (map up T)) \<and>
                set C \<subseteq> set ALPHABET \<and> length C = length T \<and>
                map Rotor_reset (rotors m') = map Rotor_reset (rotors m) \<and>
                reflector m' = reflector m"
  using assms(1-3)
proof (induction T arbitrary: m)
  case Nil
  then show ?case by simp
next
  case (Cons x T)
  from Cons.prems(3) obtain a where a: "a \<in> set ALPHABET" "up x = [a]" by auto
  from encipher_character_pair [OF Cons.prems(1,2) a(1), of up] obtain b rs where
    b: "b \<in> set ALPHABET" and rs: "stepping (rotors m) = Inr rs"
    and 1: "\<And>x. up x = [a] \<Longrightarrow> Machine_encipher_character up m x = Inr (m\<lparr>rotors := rs\<rparr>, [b])"
    and 2: "\<And>y. up y = [b] \<Longrightarrow> Machine_encipher_character up m y = Inr (m\<lparr>rotors := rs\<rparr>, [a])"
    by blast
  define m1 where "m1 = m\<lparr>rotors := rs\<rparr>"
  have m1: "machine_ok m1" "rotors m1 \<noteq> []"
    "map Rotor_reset (rotors m1) = map Rotor_reset (rotors m)" "reflector m1 = reflector m"
    using machine_ok_step [OF Cons.prems(1) rs] by (simp_all add: m1_def)
  have T: "\<forall>c\<in>set T. \<exists>a\<in>set ALPHABET. up c = [a]" using Cons.prems(3) by simp
  from Cons.IH [OF m1(1,2) T] obtain m' C where
    C: "Machine_encipher up m1 T = Inr (m', C)"
       "Machine_encipher up m1 C = Inr (m', concat (map up T))"
       "set C \<subseteq> set ALPHABET" "length C = length T"
       "map Rotor_reset (rotors m') = map Rotor_reset (rotors m1)"
       "reflector m' = reflector m1" by blast
  have e1: "Machine_encipher_character up m x = Inr (m1, [b])" using 1 [OF a(2)] by (simp add: m1_def)
  have "up b = [b]" using up b by simp
  then have e2: "Machine_encipher_character up m b = Inr (m1, [a])" using 2 by (simp add: m1_def)
  have "Machine_encipher up m (x # T) = Inr (m', b # C)" using e1 C(1) by simp
  moreover have "Machine_encipher up m (b # C) = Inr (m', concat (map up (x # T)))"
    using e2 C(2) a(2) by simp
  ultimately show ?case using C(3-6) b m1(3,4) by auto
qed

section \<open>Fresh machines\<close>

lemma Reflector_init_ok:
  assumes "length ms = 26" and "set ms \<subseteq> set ALPHABET" and "Reflector_init ms = Inr rf"
  shows "reflector_ok rf"
proof -
  from assms(3) have rf: "rf = \<lparr>mappings = zip ALPHABET ms\<rparr>"
    and none: "List.find (\<lambda>x. mapping_at ms (mapping_at ms x) \<noteq> x) ALPHABET = None"
    unfolding Reflector_init_find [OF assms(1,2)] by (auto split: option.splits)
  have "\<exists>b\<in>set ALPHABET. map_of (mappings rf) a = Some b \<and> map_of (mappings rf) b = Some a"
    if a: "a \<in> set ALPHABET" for a
  proof -
    have b: "mapping_at ms a \<in> set ALPHABET"
      using reflector_dict(4) [OF assms(1) a] assms(2) by auto
    have "mapping_at ms (mapping_at ms a) = a" using none a by (simp add: find_None_iff)
    then show ?thesis
      using reflector_dict(3) [OF assms(1) a] reflector_dict(3) [OF assms(1) b] b
      by (auto simp: dict_getitem_Inr rf)
  qed
  then show ?thesis by (simp add: reflector_ok_def)
qed

lemma fresh_machine:
  assumes "\<forall>r\<in>set rs. \<exists>w off. distinct w \<and> set w = set ALPHABET \<and> Rotor_init w off = Inr r"
    and "length ms = 26" and "set ms \<subseteq> set ALPHABET" and "Reflector_init ms = Inr rf"
  shows "machine_ok (Machine_init rs rf)" and "map Rotor_reset rs = rs"
    and "\<forall>r\<in>set rs. rotations r = 1"
proof -
  have "rotor_ok r \<and> Rotor_reset r = r \<and> rotations r = 1" if "r \<in> set rs" for r
    using assms(1) that Rotor_init_ok0 Rotor_init_fresh(2,3) by blast
  then show "machine_ok (Machine_init rs rf)" "map Rotor_reset rs = rs" "\<forall>r\<in>set rs. rotations r = 1"
    using Reflector_init_ok [OF assms(2-4)]
    by (simp_all add: machine_ok_def Machine_init_def map_idI)
qed

lemma concat_up_id: "\<forall>c\<in>set T. up c = [c] \<Longrightarrow> concat (map up T) = T"
  by (induction T) simp_all

lemma encipher_append:
  "Machine_encipher up m (xs @ ys) =
     (case Machine_encipher up m xs of
        Inl e \<Rightarrow> Inl e
      | Inr (m1, o1) \<Rightarrow>
          (case Machine_encipher up m1 ys of
             Inl e \<Rightarrow> Inl e
           | Inr (m2, o2) \<Rightarrow> Inr (m2, o1 @ o2)))"
  by (induction xs arbitrary: m) (auto split: sum.splits)

section \<open>Facts about the example configurations\<close>

lemma upper_ALPHABET: "\<forall>a\<in>set ALPHABET. upper a = [a]"
  by (auto simp: set_ALPHABET upper_def)

lemma example_wirings:
  "distinct wiring_I \<and> set wiring_I = set ALPHABET"
  "distinct wiring_II \<and> set wiring_II = set ALPHABET"
  "distinct wiring_III \<and> set wiring_III = set ALPHABET"
  by (auto simp: wiring_I_def wiring_II_def wiring_III_def str_def ALPHABET_def)

lemma example_rotors_fresh:
  "\<forall>r\<in>set example_rotors.
      \<exists>w off. distinct w \<and> set w = set ALPHABET \<and> Rotor_init w off = Inr r"
proof -
  have "Rotor_init w 0 = Inr (projr (Rotor_init w 0))" for w
    by (simp add: Rotor_init_def Let_def)
  then show ?thesis
    using example_wirings unfolding example_rotors_def by simp blast
qed

lemma example_reflector:
  "length wiring_B = 26" "set wiring_B \<subseteq> set ALPHABET"
  "Reflector_init wiring_B = Inr (projr (Reflector_init wiring_B))"
proof -
  show 1: "length wiring_B = 26" and 2: "set wiring_B \<subseteq> set ALPHABET"
    by (simp_all add: wiring_B_def str_def ALPHABET_def)
  have "is_involution wiring_B"
    by (simp add: wiring_B_def str_def is_involution_def mapping_at_def ALPHABET_def)
  then have "List.find (\<lambda>x. mapping_at wiring_B (mapping_at wiring_B x) \<noteq> x) ALPHABET = None"
    by (simp add: find_None_iff is_involution_def)
  then show "Reflector_init wiring_B = Inr (projr (Reflector_init wiring_B))"
    by (simp add: Reflector_init_find [OF 1 2])
qed

lemma example_machine_ok:
  "machine_ok example_machine" "rotors example_machine \<noteq> []"
  "\<forall>r\<in>set (rotors example_machine). rotations r = 1"
  "length (rotors example_machine) = 3"
  using fresh_machine [OF example_rotors_fresh example_reflector]
  by (simp_all add: example_machine_def Machine_init_def example_rotors_def)

section \<open>No error path\<close>

text \<open>
  Character processing has no error path: on a well-formed machine with at least one
  rotor every character is processed, whatever \<open>str.upper\<close> makes of it, and the
  machine stays well formed.
\<close>

lemma encipher_character_total:
  assumes ok: "machine_ok m" and ne: "rotors m \<noteq> []"
  shows "\<exists>m' out. Machine_encipher_character up m x = Inr (m', out) \<and>
                  machine_ok m' \<and> rotors m' \<noteq> []"
proof (cases "str_contains ALPHABET (up x)")
  case False
  then show ?thesis using ok ne by (simp add: encipher_character_route)
next
  case True
  from str_index_in_range [OF True] obtain i where
    i: "str_index ALPHABET (up x) = Inr i" "in_range i" by auto
  from route_involution [OF ok i(2)] obtain j where j: "route m i = Inr j" "in_range j" by auto
  obtain rs where rs: "stepping (rotors m) = Inr rs" using ne by (simp add: stepping_def)
  have "getitem ALPHABET j = Inr (ALPHABET ! nat j)" using getitem_ALPHABET [OF j(2)] by simp
  then have "Machine_encipher_character up m x = Inr (m\<lparr>rotors := rs\<rparr>, [ALPHABET ! nat j])"
    unfolding encipher_character_route using True i(1) j(1) rs by simp
  then show ?thesis using machine_ok_step(1,2) [OF ok rs] by simp
qed

lemma encipher_total:
  assumes "machine_ok m" and "rotors m \<noteq> []"
  shows "\<exists>m' out. Machine_encipher up m T = Inr (m', out)"
  using assms
proof (induction T arbitrary: m)
  case Nil
  then show ?case by simp
next
  case (Cons x T)
  from encipher_character_total [OF Cons.prems, of up x] obtain m1 y where
    1: "Machine_encipher_character up m x = Inr (m1, y)" "machine_ok m1" "rotors m1 \<noteq> []"
    by blast
  from Cons.IH [OF 1(2,3)] obtain m' ys where "Machine_encipher up m1 T = Inr (m', ys)" by blast
  with 1(1) show ?case by simp
qed


section \<open>The stepping, rotor by rotor\<close>

lemma turnover_nth:
  "i < length rs \<Longrightarrow>
   turnover i rs ! j =
     (if j = i \<and> rotations (rs ! (i - 1)) mod (26 * int i) = 0
      then Rotor_rotate (rs ! i) 1 else rs ! j)"
  by (simp add: turnover_def Let_def length_ALPHABET)

text \<open>
  The state of the turnover loop when it has handled the indices below \<open>Suc k\<close>: the
  rotors below are final, the rotors from \<open>Suc k\<close> on are untouched.
\<close>

lemma fold_turnover_upto:
  assumes ne: "rs \<noteq> []" and k: "Suc k \<le> length rs"
  defines "ys \<equiv> fold turnover [1..<Suc k] (rs[0 := Rotor_rotate (rs ! 0) 1])"
  shows "length ys = length rs \<and> ys ! 0 = Rotor_rotate (rs ! 0) 1 \<and>
         (\<forall>i. Suc k \<le> i \<and> i < length rs \<longrightarrow> ys ! i = rs ! i) \<and>
         (\<forall>i. 1 \<le> i \<and> i < Suc k \<longrightarrow>
            ys ! i = (if rotations (ys ! (i - 1)) mod (26 * int i) = 0
                      then Rotor_rotate (rs ! i) 1 else rs ! i))"
  using k unfolding ys_def
proof (induction k)
  case 0
  then show ?case using ne by simp
next
  case (Suc k)
  define ys where "ys = fold turnover [1..<Suc k] (rs[0 := Rotor_rotate (rs ! 0) 1])"
  define zs where "zs = turnover (Suc k) ys"
  from Suc have IH: "length ys = length rs" "ys ! 0 = Rotor_rotate (rs ! 0) 1"
    "\<And>i. Suc k \<le> i \<Longrightarrow> i < length rs \<Longrightarrow> ys ! i = rs ! i"
    "\<And>i. 1 \<le> i \<Longrightarrow> i < Suc k \<Longrightarrow>
        ys ! i = (if rotations (ys ! (i - 1)) mod (26 * int i) = 0
                      then Rotor_rotate (rs ! i) 1 else rs ! i)"
    by (simp_all add: ys_def)
  have fold: "fold turnover [1..<Suc (Suc k)] (rs[0 := Rotor_rotate (rs ! 0) 1]) = zs"
    by (simp add: zs_def ys_def)
  have kl: "Suc k < length ys" using Suc.prems IH(1) by simp
  have nth: "zs ! j = (if j = Suc k \<and> rotations (ys ! k) mod (26 * int (Suc k)) = 0
      then Rotor_rotate (ys ! Suc k) 1 else ys ! j)" for j
    using turnover_nth [OF kl, of j] by (simp add: zs_def)
  have 1: "length zs = length rs" by (simp add: zs_def length_turnover IH(1))
  have 2: "zs ! 0 = Rotor_rotate (rs ! 0) 1" using nth [of 0] IH(2) by simp
  have 3: "zs ! i = rs ! i" if "Suc (Suc k) \<le> i" "i < length rs" for i
    using nth [of i] IH(3) [of i] that by simp
  have 4: "zs ! i = (if rotations (zs ! (i - 1)) mod (26 * int i) = 0
                      then Rotor_rotate (rs ! i) 1 else rs ! i)"
    if "1 \<le> i" "i < Suc (Suc k)" for i
  proof (cases "i = Suc k")
    case True
    have "ys ! Suc k = rs ! Suc k" using IH(3) [of "Suc k"] Suc.prems by simp
    moreover have "zs ! k = ys ! k" using nth [of k] by simp
    ultimately show ?thesis using nth [of "Suc k"] True by simp
  next
    case False
    then have i: "i < Suc k" using that by simp
    have "zs ! i = ys ! i" using nth [of i] False by simp
    moreover have "i - 1 \<noteq> Suc k" using i by simp
    then have "zs ! (i - 1) = ys ! (i - 1)" using nth [of "i - 1"] by simp
    ultimately show ?thesis using IH(4) [OF that(1) i] by simp
  qed
  show ?case unfolding fold using 1 2 3 4 by blast
qed

lemma stepping_obeys_rule:
  assumes "stepping rs = Inr rs'"
  shows "stepping_rule rs rs'"
proof -
  from assms have ne: "rs \<noteq> []" by (auto simp: stepping_def split: if_splits)
  then obtain k where k: "length rs = Suc k" by (cases rs) auto
  from assms ne have rs': "rs' = fold turnover [1..<Suc k] (rs[0 := Rotor_rotate (rs ! 0) 1])"
    by (simp add: stepping_def k)
  show ?thesis
    using fold_turnover_upto [OF ne, of k] k ne
    unfolding stepping_rule_def rs' by auto
qed

text \<open>
  Claim C4. When \<open>encipher_character\<close> has routed an alphabetic character and
  returns, the rotors it leaves are the rotors it found changed by the stepping rule
  alone: rotor 0 advanced by \<open>rotate(1)\<close> unconditionally, then for \<open>i\<close> from 1
  upward rotor \<open>i\<close> rotated by one position exactly when the rotation value stored in
  rotor \<open>i - 1\<close> is a multiple of \<open>26 * i\<close>, and no other movement; the reflector is
  the same. To rotate by one position is to shift the alphabet view cyclically by one
  place and to store 1 as the rotation value.
\<close>

theorem stepping_follows_rule:
  assumes "str_contains ALPHABET (up x)"
    and "Machine_encipher_character up m x = Inr (m', out)"
  shows "stepping_rule (rotors m) (rotors m') \<and> reflector m' = reflector m \<and>
         (\<forall>r. Rotor_rotate r 1 = r\<lparr>alphabet := rotate 1 (alphabet r), rotations := 1\<rparr>)"
proof -
  from encipher_character_Inr [OF assms(2)] assms(1) obtain rs where
    rs: "stepping (rotors m) = Inr rs" "m' = m\<lparr>rotors := rs\<rparr>" by auto
  have "slice_bound xs 1 = (if xs = [] then 0 else 1)" for xs :: pystr
    by (cases xs) (simp_all add: slice_bound_def)
  then have "rotate (slice_bound xs 1) xs = rotate 1 xs" for xs :: pystr
    by simp
  then have "Rotor_rotate r 1 = r\<lparr>alphabet := rotate 1 (alphabet r), rotations := 1\<rparr>" for r
    by (simp add: Rotor_rotate_eq)
  then show ?thesis using stepping_obeys_rule [OF rs(1)] rs(2) by simp
qed

lemma zero_counter_machine_ok:
  "machine_ok zero_counter_machine" "rotors zero_counter_machine \<noteq> []"
  "length (rotors zero_counter_machine) = 3"
  "rotations (rotors zero_counter_machine ! 1) = 0"
proof -
  have "rotor_ok (Rotor_rotate (rotors example_machine ! 1) 0)"
    using example_machine_ok(1,4) by (simp add: machine_ok_def rotor_ok_rotate)
  then have "\<forall>r\<in>set ((rotors example_machine)[1 := Rotor_rotate (rotors example_machine ! 1) 0]).
               rotor_ok r"
    using example_machine_ok(1) by (intro update_ok) (simp_all add: machine_ok_def)
  then show "machine_ok zero_counter_machine"
    using example_machine_ok(1) by (simp add: machine_ok_def zero_counter_machine_def)
  show "rotors zero_counter_machine \<noteq> []" "length (rotors zero_counter_machine) = 3"
    using example_machine_ok(2,4) by (simp_all add: zero_counter_machine_def)
  show "rotations (rotors zero_counter_machine ! 1) = 0"
    using example_machine_ok(4) by (simp add: zero_counter_machine_def Rotor_rotate_def)
qed

theorem stepping_follows_rule_witness:
  "str_contains ALPHABET (upper 65) \<and>
   (\<exists>m' out. Machine_encipher_character upper zero_counter_machine 65 = Inr (m', out) \<and>
      rotors m' ! 0 = Rotor_rotate (rotors zero_counter_machine ! 0) 1 \<and>
      rotors m' ! 1 = rotors zero_counter_machine ! 1 \<and>
      rotors m' ! 2 = Rotor_rotate (rotors zero_counter_machine ! 2) 1)"
proof -
  have A: "(65::pychar) \<in> set ALPHABET" by (simp add: set_ALPHABET)
  have u: "upper 65 = [65]" using A upper_ALPHABET by blast
  have h1: "str_contains ALPHABET (upper 65)" using A by (simp add: u str_contains_single)
  from encipher_character_pair [OF zero_counter_machine_ok(1,2) A, of upper] u
  obtain m' out where
    h2: "Machine_encipher_character upper zero_counter_machine 65 = Inr (m', out)" by blast
  from stepping_follows_rule [OF h1 h2]
  have rule: "stepping_rule (rotors zero_counter_machine) (rotors m')" by simp
  then have 0: "rotors m' ! 0 = Rotor_rotate (rotors zero_counter_machine ! 0) 1"
    by (simp add: stepping_rule_def)
  then have c0: "rotations (rotors m' ! 0) = 1" by (simp add: Rotor_rotate_def)
  from rule have "rotors m' ! 1 =
      (if rotations (rotors m' ! (1 - 1)) mod (26 * int 1) = 0
       then Rotor_rotate (rotors zero_counter_machine ! 1) 1
       else rotors zero_counter_machine ! 1)"
    unfolding stepping_rule_def using zero_counter_machine_ok(3) by auto
  then have 1: "rotors m' ! 1 = rotors zero_counter_machine ! 1" using c0 by simp
  from rule have "rotors m' ! 2 =
      (if rotations (rotors m' ! (2 - 1)) mod (26 * int 2) = 0
       then Rotor_rotate (rotors zero_counter_machine ! 2) 1
       else rotors zero_counter_machine ! 2)"
    unfolding stepping_rule_def using zero_counter_machine_ok(3) by auto
  then have 2: "rotors m' ! 2 = Rotor_rotate (rotors zero_counter_machine ! 2) 1"
    using 1 zero_counter_machine_ok(4) by simp
  from h1 h2 0 1 2 show ?thesis by blast
qed

section \<open>Rotation counters\<close>

lemma turnover_idle:
  assumes "\<forall>r\<in>set rs. rotations r = 1" and "1 \<le> i" and "i \<le> length rs"
  shows "turnover i rs = rs"
proof -
  have "rs ! (i - 1) \<in> set rs" using assms(2,3) by (intro nth_mem) simp
  then have "rotations (rs ! (i - 1)) = 1" using assms(1) by simp
  moreover have "(1::int) mod (26 * int i) = 1" using assms(2) by (intro mod_pos_pos_trivial) auto
  ultimately show ?thesis by (simp add: turnover_def Let_def length_ALPHABET)
qed

lemma fold_turnover_idle:
  assumes "\<forall>r\<in>set rs. rotations r = 1" and "\<forall>i\<in>set is. 1 \<le> i \<and> i \<le> length rs"
  shows "fold turnover is rs = rs"
  using assms(2)
proof (induction "is")
  case Nil
  then show ?case by simp
next
  case (Cons i "is")
  then have "turnover i rs = rs" using assms(1) by (intro turnover_idle) auto
  with Cons show ?case by simp
qed

lemma stepping_idle:
  assumes "\<forall>r\<in>set rs. rotations r = 1" and "stepping rs = Inr rs'"
  shows "rs' = rs[0 := Rotor_rotate (rs ! 0) 1]" and "\<forall>r\<in>set rs'. rotations r = 1"
proof -
  define xs where "xs = rs[0 := Rotor_rotate (rs ! 0) 1]"
  from assms(2) have ne: "rs \<noteq> []" by (auto simp: stepping_def split: if_splits)
  have "rotations (Rotor_rotate (rs ! 0) 1) = 1" by (simp add: Rotor_rotate_def)
  then have one: "\<forall>r\<in>set xs. rotations r = 1"
    unfolding xs_def using assms(1) set_update_subset_insert [of rs 0 "Rotor_rotate (rs ! 0) 1"]
    by auto
  have "fold turnover [1..<length rs] xs = xs"
    using one by (intro fold_turnover_idle) (auto simp: xs_def)
  then have "rs' = xs" using assms(2) ne by (simp add: stepping_def xs_def)
  then show "rs' = rs[0 := Rotor_rotate (rs ! 0) 1]" "\<forall>r\<in>set rs'. rotations r = 1"
    using one by (simp_all add: xs_def)
qed

lemma encipher_character_idle:
  assumes "\<forall>r\<in>set (rotors m). rotations r = 1"
    and "Machine_encipher_character up m x = Inr (m', out)"
  shows "(\<forall>r\<in>set (rotors m'). rotations r = 1) \<and> length (rotors m') = length (rotors m) \<and>
         (\<forall>i. 1 \<le> i \<longrightarrow> rotors m' ! i = rotors m ! i)"
proof (cases "str_contains ALPHABET (up x)")
  case True
  with encipher_character_Inr [OF assms(2)] obtain rs where
    rs: "stepping (rotors m) = Inr rs" "m' = m\<lparr>rotors := rs\<rparr>" by auto
  from stepping_idle [OF assms(1) rs(1)] show ?thesis by (simp add: rs(2))
next
  case False
  with encipher_character_Inr [OF assms(2)] assms(1) show ?thesis by simp
qed

lemma encipher_idle:
  assumes "\<forall>r\<in>set (rotors m). rotations r = 1"
    and "Machine_encipher up m ts = Inr (m', out)"
  shows "(\<forall>r\<in>set (rotors m'). rotations r = 1) \<and> length (rotors m') = length (rotors m) \<and>
         (\<forall>i. 1 \<le> i \<longrightarrow> rotors m' ! i = rotors m ! i)"
  using assms
proof (induction ts arbitrary: m out)
  case Nil
  then show ?case by simp
next
  case (Cons x ts)
  from Cons.prems(2) obtain m1 y ys where
    1: "Machine_encipher_character up m x = Inr (m1, y)"
    and 2: "Machine_encipher up m1 ts = Inr (m', ys)"
    by (auto split: sum.splits)
  from encipher_character_idle [OF Cons.prems(1) 1] have
    a: "\<forall>r\<in>set (rotors m1). rotations r = 1" "length (rotors m1) = length (rotors m)"
       "\<And>i. 1 \<le> i \<Longrightarrow> rotors m1 ! i = rotors m ! i" by auto
  from Cons.IH [OF a(1) 2] a(2,3) show ?case by simp
qed

lemma reset_rotations: "\<forall>r\<in>set (rotors (Machine_reset m)). rotations r = 1"
  by (simp add: Machine_reset_def Rotor_reset_eq)

text \<open>
  Claim C3. On a machine after construction from fresh rotors, or after \<open>reset()\<close>,
  at every point of a run of \<open>encipher\<close> (the machine as the characters \<open>pre\<close>
  enciphered so far have left it, from none of them to all of them) every rotor's
  rotation counter is 1, every rotor at an index \<open>i \<ge> 1\<close> is the rotor it was at the
  start, alphabet view included, and the turnover condition
  \<open>rotations % (26*i) == 0\<close> is false at every such index: only rotor 0 ever moves.
\<close>

theorem rotation_counters_stay_one:
  assumes "m0 = Machine_reset m \<or>
           (\<forall>r\<in>set (rotors m0). \<exists>w off. Rotor_init w off = Inr r)"
    and "Machine_encipher up m0 (pre @ post) = Inr (m', out)"
  shows "\<exists>mk outk. Machine_encipher up m0 pre = Inr (mk, outk) \<and>
           (\<forall>r\<in>set (rotors mk). rotations r = 1) \<and>
           length (rotors mk) = length (rotors m0) \<and>
           (\<forall>i\<in>{1..<length (rotors m0)}.
              rotors mk ! i = rotors m0 ! i \<and>
              rotations (rotors mk ! (i - 1)) mod (26 * int i) \<noteq> 0)"
proof -
  have one: "\<forall>r\<in>set (rotors m0). rotations r = 1"
    using assms(1) reset_rotations [of m] Rotor_init_fresh(3) by blast
  from assms(2) obtain mk outk where mk: "Machine_encipher up m0 pre = Inr (mk, outk)"
    unfolding encipher_append by (auto split: sum.splits)
  from encipher_idle [OF one mk] have
    k: "\<forall>r\<in>set (rotors mk). rotations r = 1" "length (rotors mk) = length (rotors m0)"
       "\<And>i. 1 \<le> i \<Longrightarrow> rotors mk ! i = rotors m0 ! i" by auto
  have "rotations (rotors mk ! (i - 1)) mod (26 * int i) \<noteq> 0"
    if "i \<in> {1..<length (rotors m0)}" for i
  proof -
    have "rotors mk ! (i - 1) \<in> set (rotors mk)" using that k(2) by (intro nth_mem) auto
    then have "rotations (rotors mk ! (i - 1)) = 1" using k(1) by simp
    moreover have "(1::int) mod (26 * int i) = 1"
      using that by (intro mod_pos_pos_trivial) auto
    ultimately show ?thesis by simp
  qed
  with mk k show ?thesis by auto
qed

theorem rotation_counters_stay_one_witness:
  "\<exists>mk outk. Machine_encipher upper example_machine (str ''AB'') = Inr (mk, outk) \<and>
      list_all (\<lambda>r. rotations r = 1) (rotors mk) \<and>
      length (rotors mk) = 3 \<and>
      rotors mk ! 1 = rotors example_machine ! 1 \<and>
      rotors mk ! 2 = rotors example_machine ! 2"
proof -
  have T: "\<forall>c\<in>set (str ''AB'' @ str ''C''). \<exists>a\<in>set ALPHABET. upper c = [a]"
    by (simp add: str_def upper_def ALPHABET_def)
  from encipher_there_and_back [OF example_machine_ok(1,2) T upper_ALPHABET]
  obtain m' out where
    h2: "Machine_encipher upper example_machine (str ''AB'' @ str ''C'') = Inr (m', out)"
    by blast
  have h1: "example_machine = Machine_reset example_machine \<or>
            (\<forall>r\<in>set (rotors example_machine). \<exists>w off. Rotor_init w off = Inr r)"
    using example_rotors_fresh by (simp add: example_machine_def Machine_init_def) blast
  from rotation_counters_stay_one [OF h1 h2] example_machine_ok(4)
  show ?thesis by (auto simp: list_all_iff)
qed

text \<open>The first rotor turns once for every letter.\<close>

lemma encipher_first_rotor:
  assumes "\<forall>c\<in>set T. str_contains ALPHABET (up c)"
    and "Machine_encipher up m T = Inr (m', out)"
  shows "T = [] \<or> alphabet (rotors m' ! 0) = rotate (length T) (alphabet (rotors m ! 0))"
  using assms
proof (induction T arbitrary: m out)
  case Nil
  then show ?case by simp
next
  case (Cons x T)
  from Cons.prems(2) obtain m1 y ys where
    1: "Machine_encipher_character up m x = Inr (m1, y)"
    and 2: "Machine_encipher up m1 T = Inr (m', ys)"
    by (auto split: sum.splits)
  from encipher_character_Inr [OF 1] Cons.prems(1) obtain rs where
    rs: "stepping (rotors m) = Inr rs" "m1 = m\<lparr>rotors := rs\<rparr>" by auto
  have "rs ! 0 = Rotor_rotate (rotors m ! 0) 1"
    using stepping_obeys_rule [OF rs(1)] by (simp add: stepping_rule_def)
  then have a1: "alphabet (rotors m1 ! 0) = rotate 1 (alphabet (rotors m ! 0))"
    using rotate1_slice by (simp add: rs(2) Rotor_rotate_eq)
  show ?case
  proof (cases "T = []")
    case True
    with 2 a1 show ?thesis by simp
  next
    case False
    with Cons.IH [OF _ 2] Cons.prems(1)
    have "alphabet (rotors m' ! 0) = rotate (length T) (alphabet (rotors m1 ! 0))" by simp
    then show ?thesis by (simp add: a1 rotate1_rotate_swap)
  qed
qed

text \<open>
  Claim C2, on the code. The machine of three rotors at initial offset 0 enciphers 26
  consecutive \<open>A\<close>. The first rotor has then made one full revolution: its alphabet
  view is back where it started. The second rotor has not advanced: its view is still
  the canonical alphabet, not the alphabet shifted by one position that a carry from
  the first rotor would give. The first rotor's counter is overwritten with 1 by every \<open>rotate()\<close>, so
  the turnover test \<open>rotations % 26 == 0\<close> never succeeds.
\<close>

theorem second_rotor_does_not_advance:
  "\<exists>m' out. Machine_encipher upper example_machine (replicate 26 65) = Inr (m', out) \<and>
      alphabet (rotors example_machine ! 0) = ALPHABET \<and>
      alphabet (rotors m' ! 0) = ALPHABET \<and>
      alphabet (rotors example_machine ! 1) = ALPHABET \<and>
      alphabet (rotors m' ! 1) = ALPHABET \<and>
      alphabet (rotors m' ! 1) \<noteq> rotate 1 ALPHABET"
proof -
  define T :: pystr where "T = replicate 26 65"
  have A: "(65::pychar) \<in> set ALPHABET" by (simp add: set_ALPHABET)
  have T1: "\<forall>c\<in>set T. \<exists>a\<in>set ALPHABET. upper c = [a]"
    using A upper_ALPHABET by (auto simp: T_def)
  have T2: "\<forall>c\<in>set T. str_contains ALPHABET (upper c)"
    using A upper_ALPHABET by (auto simp: T_def str_contains_single)
  from encipher_there_and_back [OF example_machine_ok(1,2) T1 upper_ALPHABET]
  obtain m' out where run: "Machine_encipher upper example_machine T = Inr (m', out)" by blast
  have a0: "alphabet (rotors example_machine ! 0) = ALPHABET"
    and a1: "alphabet (rotors example_machine ! 1) = ALPHABET"
    by (simp_all add: example_machine_def Machine_init_def example_rotors_def Rotor_init_def
          Rotor_reset_eq slice_bound_def Let_def)
  from encipher_first_rotor [OF T2 run]
  have "alphabet (rotors m' ! 0) = rotate 26 ALPHABET" by (simp add: T_def a0)
  then have b0: "alphabet (rotors m' ! 0) = ALPHABET"
    using rotate_conv_mod [of 26 ALPHABET] by (simp add: length_ALPHABET)
  from encipher_idle [OF example_machine_ok(3) run]
  have "rotors m' ! 1 = rotors example_machine ! 1" by blast
  then have b1: "alphabet (rotors m' ! 1) = ALPHABET" using a1 by simp
  have "rotate 1 ALPHABET \<noteq> ALPHABET" by (simp add: ALPHABET_def str_def)
  with run a0 a1 b0 b1 show ?thesis unfolding T_def by auto
qed

section \<open>Upper-case forms of several characters\<close>

text \<open>
  The position \<open>ALPHABET.index\<close> finds is all that \<open>encipher_character\<close> keeps of
  the upper-case form: two characters whose forms occur first at the same position of
  the alphabet string are enciphered alike.
\<close>

lemma same_position_same_cipher:
  assumes "str_find ALPHABET (up c) = str_find ALPHABET (up d)"
    and "str_contains ALPHABET (up c)"
  shows "Machine_encipher_character up m c = Machine_encipher_character up m d"
  using assms
  by (auto simp: Machine_encipher_character_def str_contains_def str_index_def Let_def)

text \<open>
  The ligature U+FB06 upper-cases to \<open>ST\<close>, which occurs in the alphabet string at the
  position of \<open>S\<close>: the test \<open>x not in ALPHABET\<close> fails, the character is enciphered as
  \<open>S\<close> is, one letter comes out and the first rotor is stepped. It is not passed
  through.
\<close>

lemma ligature_is_enciphered:
  "upper_with_ligatures 64262 = str ''ST'' \<and>
   str_contains ALPHABET (upper_with_ligatures 64262) \<and>
   Machine_encipher_character upper_with_ligatures example_machine 64262 =
     Machine_encipher_character upper_with_ligatures example_machine 83 \<and>
   (\<exists>m' b. Machine_encipher_character upper_with_ligatures example_machine 64262 =
              Inr (m', [b]) \<and> b \<in> set ALPHABET \<and>
            rotors m' ! 0 = Rotor_rotate (rotors example_machine ! 0) 1)"
proof -
  have u: "upper_with_ligatures 64262 = str ''ST''" "upper_with_ligatures 83 = [83]"
    by (simp_all add: upper_with_ligatures_def upper_def)
  have f: "str_find ALPHABET (str ''ST'') = Some 18" "str_find ALPHABET [83] = Some 18"
    by (simp_all add: ALPHABET_def str_def)
  have c: "str_contains ALPHABET (upper_with_ligatures 64262)"
    by (simp add: u f str_contains_def)
  have same: "Machine_encipher_character upper_with_ligatures example_machine 64262 =
     Machine_encipher_character upper_with_ligatures example_machine 83"
    using c by (intro same_position_same_cipher) (simp_all add: u f)
  have S: "(83::pychar) \<in> set ALPHABET" by (simp add: set_ALPHABET)
  from encipher_character_pair [OF example_machine_ok(1,2) S, of upper_with_ligatures] u(2)
  obtain b rs where b: "b \<in> set ALPHABET"
    and rs: "stepping (rotors example_machine) = Inr rs"
    and e: "Machine_encipher_character upper_with_ligatures example_machine 83 =
              Inr (example_machine\<lparr>rotors := rs\<rparr>, [b])"
    by blast
  have "rs ! 0 = Rotor_rotate (rotors example_machine ! 0) 1"
    using stepping_obeys_rule [OF rs] by (simp add: stepping_rule_def)
  with u(1) c same e b show ?thesis by simp
qed

section \<open>The round trip\<close>

text \<open>
  Claim C1. Take a machine freshly constructed from at least one rotor, every rotor
  built by \<open>Rotor.__init__\<close> from a wiring that is a permutation of the alphabet (at any
  offset), and from a reflector built by \<open>Reflector.__init__\<close> from a 26-character
  mapping over the alphabet; take a text \<open>T\<close> of characters of the alphabet, which
  \<open>str.upper\<close> leaves as they are. Then \<open>encipher(T)\<close> returns a cipher text \<open>C\<close>,
  and \<open>decipher(C)\<close> on the machine so left returns \<open>T.upper()\<close>, which is \<open>T\<close>.
  \<open>decipher\<close> is \<open>encipher\<close> on the reset machine, and the reset machine is the
  machine as it was constructed.
\<close>

theorem round_trip:
  assumes "rs \<noteq> []"
    and "\<forall>r\<in>set rs. \<exists>w off. distinct w \<and> set w = set ALPHABET \<and> Rotor_init w off = Inr r"
    and "length ms = 26" and "set ms \<subseteq> set ALPHABET" and "Reflector_init ms = Inr rf"
    and "set T \<subseteq> set ALPHABET"
    and "\<forall>a\<in>set ALPHABET. up a = [a]"
  shows "\<exists>m1 C m2. Machine_encipher up (Machine_init rs rf) T = Inr (m1, C) \<and>
                   Machine_decipher up m1 C = Inr (m2, concat (map up T)) \<and>
                   concat (map up T) = T \<and>
                   Machine_reset m1 = Machine_init rs rf \<and>
                   Machine_decipher up m1 C = Machine_encipher up (Machine_reset m1) C"
proof -
  define m0 where "m0 = Machine_init rs rf"
  have ok: "machine_ok m0" and rst: "map Rotor_reset rs = rs"
    using fresh_machine [OF assms(2-5)] by (simp_all add: m0_def)
  have ne: "rotors m0 \<noteq> []" using assms(1) by (simp add: m0_def Machine_init_def)
  have T: "\<forall>c\<in>set T. \<exists>a\<in>set ALPHABET. up c = [a]" using assms(6,7) by auto
  from encipher_there_and_back [OF ok ne T assms(7)] obtain m1 C where
    C: "Machine_encipher up m0 T = Inr (m1, C)"
       "Machine_encipher up m0 C = Inr (m1, concat (map up T))"
       "map Rotor_reset (rotors m1) = map Rotor_reset (rotors m0)"
       "reflector m1 = reflector m0" by blast
  have r: "Machine_reset m1 = m0"
    using C(3,4) rst by (simp add: Machine_reset_def m0_def Machine_init_def)
  then have "Machine_decipher up m1 C = Inr (m1, concat (map up T))"
    using C(2) by (simp add: Machine_decipher_def)
  moreover have "concat (map up T) = T"
    using assms(6,7) by (intro concat_up_id) auto
  moreover have "Machine_decipher up m1 C = Machine_encipher up (Machine_reset m1) C"
    by (simp add: Machine_decipher_def)
  ultimately show ?thesis using C(1) r unfolding m0_def by blast
qed

theorem round_trip_witness:
  "example_rotors \<noteq> [] \<and> length wiring_B = 26 \<and> set wiring_B \<subseteq> set ALPHABET \<and>
   set (str ''ENIGMA'') \<subseteq> set ALPHABET \<and>
   (\<exists>m1 C m2.
      Machine_encipher upper example_machine (str ''ENIGMA'') = Inr (m1, C) \<and>
      Machine_decipher upper m1 C = Inr (m2, str ''ENIGMA''))"
proof -
  have h1: "example_rotors \<noteq> []" by (simp add: example_rotors_def)
  have h6: "set (str ''ENIGMA'') \<subseteq> set ALPHABET" by (simp add: str_def ALPHABET_def)
  from round_trip [OF h1 example_rotors_fresh example_reflector h6 upper_ALPHABET]
  show ?thesis using h1 example_reflector(1,2) h6 by (auto simp: example_machine_def)
qed

end
